theory Spec2Isabelle
  imports Main
begin

section \<open>Memory model\<close>

text \<open>
  A \<open>Node*\<close> of the source points either at the sentinel \<open>head_\<close> embedded in a
  list object or at a node made by \<open>new Node\<close>. The two kinds of storage are kept
  apart: \<open>Head l\<close> is the address of \<open>head_\<close> inside list object \<open>l\<close>, \<open>Cell a\<close>
  the address of the heap node \<open>a\<close>. The null pointer is \<open>None\<close>.
\<close>

datatype ptr = Head nat | Cell nat

text \<open>\<open>struct Node { Type value; Node* next_node = nullptr; }\<close>\<close>

record 'a Node =
  node_value :: 'a
  next_node :: "ptr option"

text \<open>
  The list object: \<open>Node head_; size_t size_ = 0u;\<close>, the fields written
  \<open>m_head_next\<close> (for \<open>head_.next_node\<close>) and \<open>m_size\<close> (for \<open>size_\<close>). Of the sentinel
  only the \<open>next_node\<close> field is kept: its \<open>value\<close> field is default-initialised
  and no member function reads or writes it. \<open>size_t\<close> is a \<open>nat\<close>: the counter moves
  by one per node allocated or released, and every node occupies storage of its own.
\<close>

record SingleLinkedList =
  m_head_next :: "ptr option"
  m_size :: nat

text \<open>
  The exceptions the source can meet: \<open>new\<close> throws \<open>std::bad_alloc\<close>, and the copy
  constructor of \<open>Type\<close>, run by \<open>Node(const Type&, Node*)\<close>, may throw.
\<close>

datatype exn = bad_alloc | copy_failure

text \<open>
  How a call ends: it returns, it throws (the stack unwinds and the caller may go on),
  or the program stops at a failed \<open>assert\<close> or at undefined behaviour (\<open>Abort\<close>).
\<close>

datatype 'r result = Ok 'r | Throw exn | Abort

text \<open>
  The store. \<open>heap\<close> holds the nodes made by \<open>new\<close>, addressed by position; a released
  node leaves \<open>None\<close> behind and addresses are not reused. \<open>objs\<close> holds the list
  objects in the same way. \<open>faults\<close> is the environment's schedule for the coming
  \<open>new Node(value, next)\<close> expressions: \<open>Some e\<close> makes the next one throw \<open>e\<close>,
  \<open>None\<close> (or an exhausted schedule) lets it succeed.
\<close>

record 'a state =
  heap :: "'a Node option list"
  objs :: "SingleLinkedList option list"
  faults :: "exn option list"

definition cell :: "'a state \<Rightarrow> nat \<Rightarrow> 'a Node option" where
  "cell s a = (if a < length (heap s) then heap s ! a else None)"

definition obj :: "'a state \<Rightarrow> nat \<Rightarrow> SingleLinkedList option" where
  "obj s l = (if l < length (objs s) then objs s ! l else None)"

definition set_obj :: "nat \<Rightarrow> SingleLinkedList \<Rightarrow> 'a state \<Rightarrow> 'a state" where
  "set_obj l L s = s\<lparr>objs := (objs s)[l := Some L]\<rparr>"

text \<open>\<open>p->next_node\<close> as an rvalue; \<open>None\<close> when \<open>p\<close> dangles.\<close>

definition get_next :: "'a state \<Rightarrow> ptr \<Rightarrow> ptr option option" where
  "get_next s p =
     (case p of
        Head l \<Rightarrow> map_option m_head_next (obj s l)
      | Cell a \<Rightarrow> map_option next_node (cell s a))"

text \<open>\<open>p->next_node = q\<close>; \<open>None\<close> when \<open>p\<close> dangles.\<close>

definition set_next :: "ptr \<Rightarrow> ptr option \<Rightarrow> 'a state \<Rightarrow> 'a state option" where
  "set_next p q s =
     (case p of
        Head l \<Rightarrow>
          (case obj s l of
             None \<Rightarrow> None
           | Some L \<Rightarrow> Some (set_obj l (L\<lparr>m_head_next := q\<rparr>) s))
      | Cell a \<Rightarrow>
          (case cell s a of
             None \<Rightarrow> None
           | Some n \<Rightarrow> Some (s\<lparr>heap := (heap s)[a := Some (n\<lparr>next_node := q\<rparr>)]\<rparr>)))"

text \<open>
  \<open>new Node(value, next)\<close>: either the scheduled exception, with no storage kept
  (a constructor that throws inside \<open>new\<close> gives its storage back), or a fresh node.
\<close>

definition new_Node :: "'a \<Rightarrow> ptr option \<Rightarrow> 'a state \<Rightarrow> ptr result \<times> 'a state" where
  "new_Node v nx s =
     (case faults s of
        Some e # fs \<Rightarrow> (Throw e, s\<lparr>faults := fs\<rparr>)
      | _ \<Rightarrow>
          (Ok (Cell (length (heap s))),
           s\<lparr>heap := heap s @ [Some \<lparr>node_value = v, next_node = nx\<rparr>],
             faults := tl (faults s)\<rparr>))"

text \<open>
  \<open>delete p\<close> for a non-null \<open>p\<close>: defined only for a live node that came from \<open>new\<close>.
\<close>

definition delete_Node :: "ptr \<Rightarrow> 'a state \<Rightarrow> 'a state option" where
  "delete_Node p s =
     (case p of
        Head l \<Rightarrow> None
      | Cell a \<Rightarrow>
          (case cell s a of
             None \<Rightarrow> None
           | Some n \<Rightarrow> Some (s\<lparr>heap := (heap s)[a := None]\<rparr>)))"

section \<open>BasicIterator\<close>

text \<open>
  \<open>BasicIterator<ValueType>\<close> has the one field \<open>Node* node_\<close>; the mutable and the
  read-only flavour differ in the type of the reference they hand out only, so both are
  a \<open>ptr option\<close>, and the converting constructor is the identity.
\<close>

type_synonym Iterator = "ptr option"

definition it_eq :: "Iterator \<Rightarrow> Iterator \<Rightarrow> bool" where
  "it_eq a b = (a = b)"

definition it_ne :: "Iterator \<Rightarrow> Iterator \<Rightarrow> bool" where
  "it_ne a b = (\<not> (a = b))"

text \<open>\<open>operator++()\<close>: \<open>assert(node_); node_ = node_->next_node;\<close>\<close>

definition it_inc :: "'a state \<Rightarrow> Iterator \<Rightarrow> Iterator result" where
  "it_inc s it =
     (case it of
        None \<Rightarrow> Abort
      | Some p \<Rightarrow> (case get_next s p of None \<Rightarrow> Abort | Some nx \<Rightarrow> Ok nx))"

text \<open>
  \<open>operator*()\<close>: \<open>assert(node_); return node_->value;\<close>. The sentinel's value is
  never initialised from an element, so reading it is undefined.
\<close>

definition it_deref :: "'a state \<Rightarrow> Iterator \<Rightarrow> 'a result" where
  "it_deref s it =
     (case it of
        None \<Rightarrow> Abort
      | Some (Head l) \<Rightarrow> Abort
      | Some (Cell a) \<Rightarrow> (case cell s a of None \<Rightarrow> Abort | Some n \<Rightarrow> Ok (node_value n)))"

section \<open>SingleLinkedList\<close>

definition GetSize :: "'a state \<Rightarrow> nat \<Rightarrow> nat option" where
  "GetSize s this = map_option m_size (obj s this)"

definition IsEmpty :: "'a state \<Rightarrow> nat \<Rightarrow> bool option" where
  "IsEmpty s this = map_option (\<lambda>L. m_size L = 0) (obj s this)"

definition cbegin :: "'a state \<Rightarrow> nat \<Rightarrow> Iterator option" where
  "cbegin s this = map_option m_head_next (obj s this)"

definition cend :: Iterator where
  "cend = None"

definition list_begin :: "'a state \<Rightarrow> nat \<Rightarrow> Iterator option" where
  "list_begin s this = map_option m_head_next (obj s this)"

definition list_end :: Iterator where
  "list_end = None"

definition cbefore_begin :: "nat \<Rightarrow> Iterator" where
  "cbefore_begin this = Some (Head this)"

definition before_begin :: "nat \<Rightarrow> Iterator" where
  "before_begin this = Some (Head this)"

text \<open>
  \<open>swap\<close>: \<open>std::swap(size_, other.size_); std::swap(head_.next_node, other.head_.next_node);\<close>
\<close>

definition swap :: "nat \<Rightarrow> nat \<Rightarrow> 'a state \<Rightarrow> unit result \<times> 'a state" where
  "swap this other s =
     (case obj s this of
        None \<Rightarrow> (Abort, s)
      | Some A \<Rightarrow>
          (case obj s other of
             None \<Rightarrow> (Abort, s)
           | Some B \<Rightarrow>
               (let s1 = set_obj other (B\<lparr>m_size := m_size A\<rparr>)
                           (set_obj this (A\<lparr>m_size := m_size B\<rparr>) s)
                in case obj s1 this of
                     None \<Rightarrow> (Abort, s1)
                   | Some A1 \<Rightarrow>
                       (case obj s1 other of
                          None \<Rightarrow> (Abort, s1)
                        | Some B1 \<Rightarrow>
                            (Ok (),
                             set_obj other (B1\<lparr>m_head_next := m_head_next A1\<rparr>)
                               (set_obj this (A1\<lparr>m_head_next := m_head_next B1\<rparr>) s1))))))"

text \<open>\<open>PushFront\<close>: \<open>head_.next_node = new Node(value, head_.next_node); ++size_;\<close>\<close>

definition PushFront :: "nat \<Rightarrow> 'a \<Rightarrow> 'a state \<Rightarrow> unit result \<times> 'a state" where
  "PushFront this v s =
     (case obj s this of
        None \<Rightarrow> (Abort, s)
      | Some L \<Rightarrow>
          (case new_Node v (m_head_next L) s of
             (Ok q, s1) \<Rightarrow>
               (Ok (), set_obj this (L\<lparr>m_head_next := Some q, m_size := m_size L + 1\<rparr>) s1)
           | (Throw e, s1) \<Rightarrow> (Throw e, s1)
           | (Abort, s1) \<Rightarrow> (Abort, s1)))"

text \<open>
  \<open>PopFront\<close>: \<open>assert(size_ != 0 && head_.next_node != nullptr);\<close> then the first
  node is unlinked and deleted and \<open>size_\<close> decremented.
\<close>

definition PopFront :: "nat \<Rightarrow> 'a state \<Rightarrow> unit result \<times> 'a state" where
  "PopFront this s =
     (case obj s this of
        None \<Rightarrow> (Abort, s)
      | Some L \<Rightarrow>
          if m_size L \<noteq> 0 \<and> m_head_next L \<noteq> None then
            (case m_head_next L of
               None \<Rightarrow> (Abort, s)
             | Some d \<Rightarrow>
                 (case get_next s d of
                    None \<Rightarrow> (Abort, s)
                  | Some new_first_node \<Rightarrow>
                      (case delete_Node d s of
                         None \<Rightarrow> (Abort, s)
                       | Some s1 \<Rightarrow>
                           (Ok (),
                            set_obj this
                              (L\<lparr>m_head_next := new_first_node, m_size := m_size L - 1\<rparr>) s1))))
          else (Abort, s))"

text \<open>
  \<open>InsertAfter\<close>: \<open>assert(pos.node_);
  pos.node_->next_node = new Node(value, pos.node_->next_node); ++size_;
  return Iterator(pos.node_->next_node);\<close>
\<close>

definition InsertAfter :: "nat \<Rightarrow> Iterator \<Rightarrow> 'a \<Rightarrow> 'a state \<Rightarrow> Iterator result \<times> 'a state" where
  "InsertAfter this pos v s =
     (case pos of
        None \<Rightarrow> (Abort, s)
      | Some p \<Rightarrow>
          (case get_next s p of
             None \<Rightarrow> (Abort, s)
           | Some nx \<Rightarrow>
               (case new_Node v nx s of
                  (Ok q, s1) \<Rightarrow>
                    (case set_next p (Some q) s1 of
                       None \<Rightarrow> (Abort, s1)
                     | Some s2 \<Rightarrow>
                         (case obj s2 this of
                            None \<Rightarrow> (Abort, s2)
                          | Some L \<Rightarrow>
                              (let s3 = set_obj this (L\<lparr>m_size := m_size L + 1\<rparr>) s2
                               in case get_next s3 p of
                                    None \<Rightarrow> (Abort, s3)
                                  | Some r \<Rightarrow> (Ok r, s3))))
                | (Throw e, s1) \<Rightarrow> (Throw e, s1)
                | (Abort, s1) \<Rightarrow> (Abort, s1))))"

text \<open>
  \<open>EraseAfter\<close>: \<open>assert(size_ != 0 && pos.node_ && pos.node_->next_node);\<close> then the
  successor of \<open>pos\<close> is unlinked and deleted, \<open>size_\<close> decremented, and an iterator to
  the node after the deleted one returned.
\<close>

definition EraseAfter :: "nat \<Rightarrow> Iterator \<Rightarrow> 'a state \<Rightarrow> Iterator result \<times> 'a state" where
  "EraseAfter this pos s =
     (case obj s this of
        None \<Rightarrow> (Abort, s)
      | Some L \<Rightarrow>
          if m_size L = 0 then (Abort, s)
          else
            (case pos of
               None \<Rightarrow> (Abort, s)
             | Some p \<Rightarrow>
                 (case get_next s p of
                    None \<Rightarrow> (Abort, s)
                  | Some None \<Rightarrow> (Abort, s)
                  | Some (Some d) \<Rightarrow>
                      (case get_next s d of
                         None \<Rightarrow> (Abort, s)
                       | Some ptr_on_elem_after_deleted \<Rightarrow>
                           (case delete_Node d s of
                              None \<Rightarrow> (Abort, s)
                            | Some s1 \<Rightarrow>
                                (case set_next p ptr_on_elem_after_deleted s1 of
                                   None \<Rightarrow> (Abort, s1)
                                 | Some s2 \<Rightarrow>
                                     (case obj s2 this of
                                        None \<Rightarrow> (Abort, s2)
                                      | Some L2 \<Rightarrow>
                                          (Ok ptr_on_elem_after_deleted,
                                           set_obj this (L2\<lparr>m_size := m_size L2 - 1\<rparr>) s2))))))))"

text \<open>
  \<open>Clear\<close>: \<open>while (head_.next_node) { Node* deleted_node = head_.next_node;
  head_.next_node = head_.next_node->next_node; delete deleted_node; } size_ = 0u;\<close>
  Every round of the loop releases a live node or stops, so the loop ends.
\<close>

definition live_cells :: "'a state \<Rightarrow> nat" where
  "live_cells s = length (filter (\<lambda>c. c \<noteq> None) (heap s))"

function Clear_loop :: "nat \<Rightarrow> 'a state \<Rightarrow> unit result \<times> 'a state" where
  "Clear_loop this s =
     (case obj s this of
        None \<Rightarrow> (Abort, s)
      | Some L \<Rightarrow>
          (case m_head_next L of
             None \<Rightarrow> (Ok (), s)
           | Some deleted_node \<Rightarrow>
               (case get_next s deleted_node of
                  None \<Rightarrow> (Abort, s)
                | Some nx \<Rightarrow>
                    (case delete_Node deleted_node (set_obj this (L\<lparr>m_head_next := nx\<rparr>) s) of
                       None \<Rightarrow> (Abort, set_obj this (L\<lparr>m_head_next := nx\<rparr>) s)
                     | Some s2 \<Rightarrow> Clear_loop this s2))))"
  by pat_completeness auto

lemma length_filter_update_None:
  "a < length h \<Longrightarrow> h ! a \<noteq> None \<Longrightarrow>
   length (filter (\<lambda>c. c \<noteq> None) (h[a := None])) < length (filter (\<lambda>c. c \<noteq> None) h)"
proof (induction h arbitrary: a)
  case Nil
  then show ?case by simp
next
  case (Cons x h)
  then show ?case
    by (cases a) (auto simp: less_Suc_eq_le Suc_le_eq simp del: not_None_eq)
qed

lemma delete_Node_live:
  "delete_Node p s = Some s' \<Longrightarrow> live_cells s' < live_cells s"
  by (auto simp: delete_Node_def live_cells_def cell_def length_filter_update_None
      simp del: not_None_eq split: ptr.splits option.splits if_splits)

lemma live_cells_set_obj [simp]: "live_cells (set_obj l L s) = live_cells s"
  by (simp add: live_cells_def set_obj_def)

termination Clear_loop
  by (relation "measure (\<lambda>(this, s). live_cells s)") (auto dest!: delete_Node_live)

declare Clear_loop.simps [simp del]

definition Clear :: "nat \<Rightarrow> 'a state \<Rightarrow> unit result \<times> 'a state" where
  "Clear this s =
     (case Clear_loop this s of
        (Ok u, s1) \<Rightarrow>
          (case obj s1 this of
             None \<Rightarrow> (Abort, s1)
           | Some L \<Rightarrow> (Ok (), set_obj this (L\<lparr>m_size := 0\<rparr>) s1))
      | (Throw e, s1) \<Rightarrow> (Throw e, s1)
      | (Abort, s1) \<Rightarrow> (Abort, s1))"

text \<open>
  \<open>SingleLinkedList() = default\<close>: a new list object with the default member
  initialisers, \<open>head_.next_node = nullptr\<close> and \<open>size_ = 0u\<close>. The result is the
  new object's identity.
\<close>

definition SingleLinkedList_default :: "'a state \<Rightarrow> nat \<times> 'a state" where
  "SingleLinkedList_default s =
     (length (objs s), s\<lparr>objs := objs s @ [Some \<lparr>m_head_next = None, m_size = 0\<rparr>]\<rparr>)"

text \<open>The storage of a list object ends (after its destructor, or when its constructor threw).\<close>

definition release_obj :: "nat \<Rightarrow> 'a state \<Rightarrow> 'a state" where
  "release_obj l s = s\<lparr>objs := (objs s)[l := None]\<rparr>"

text \<open>\<open>~SingleLinkedList() { Clear(); }\<close>, and the object is gone.\<close>

definition destructor :: "nat \<Rightarrow> 'a state \<Rightarrow> unit result \<times> 'a state" where
  "destructor this s =
     (case Clear this s of
        (Ok u, s1) \<Rightarrow> (Ok (), release_obj this s1)
      | (Throw e, s1) \<Rightarrow> (Throw e, s1)
      | (Abort, s1) \<Rightarrow> (Abort, s1))"

text \<open>
  \<open>CreateSingleLinkedList(const Container&)\<close> is a template; it is used with
  \<open>std::initializer_list<Type>\<close> and with \<open>SingleLinkedList\<close>. The loop
  \<open>for (auto it = container.begin(); it != container.end(); ++it)
     insert_after_pos = container_copy.InsertAfter(insert_after_pos, *it);\<close>
  over an initializer list walks an array of values, here a HOL list.
\<close>

fun il_loop :: "nat \<Rightarrow> 'a list \<Rightarrow> Iterator \<Rightarrow> 'a state \<Rightarrow> unit result \<times> 'a state" where
  "il_loop container_copy [] insert_after_pos s = (Ok (), s)"
| "il_loop container_copy (v # vs) insert_after_pos s =
     (case InsertAfter container_copy insert_after_pos v s of
        (Ok pos', s1) \<Rightarrow> il_loop container_copy vs pos' s1
      | (Throw e, s1) \<Rightarrow> (Throw e, s1)
      | (Abort, s1) \<Rightarrow> (Abort, s1))"

text \<open>
  What follows the loop is the same for both containers: on normal exit
  \<open>swap(container_copy)\<close> and the destructor of the local \<open>container_copy\<close>; when the
  loop threw, the unwinding stack runs that destructor and the exception goes on.
\<close>

definition finish_create ::
  "nat \<Rightarrow> nat \<Rightarrow> unit result \<times> 'a state \<Rightarrow> unit result \<times> 'a state" where
  "finish_create this container_copy looped =
     (case looped of
        (Ok u, s1) \<Rightarrow>
          (case swap this container_copy s1 of
             (Ok u', s2) \<Rightarrow> destructor container_copy s2
           | (Throw e, s2) \<Rightarrow> (Throw e, s2)
           | (Abort, s2) \<Rightarrow> (Abort, s2))
      | (Throw e, s1) \<Rightarrow>
          (case destructor container_copy s1 of
             (Ok u', s2) \<Rightarrow> (Throw e, s2)
           | (Throw e', s2) \<Rightarrow> (Abort, s2)
           | (Abort, s2) \<Rightarrow> (Abort, s2))
      | (Abort, s1) \<Rightarrow> (Abort, s1))"

definition CreateSingleLinkedList_il ::
  "nat \<Rightarrow> 'a list \<Rightarrow> 'a state \<Rightarrow> unit result \<times> 'a state" where
  "CreateSingleLinkedList_il this container s =
     (case SingleLinkedList_default s of
        (container_copy, s0) \<Rightarrow>
          finish_create this container_copy
            (il_loop container_copy container (before_begin container_copy) s0))"

text \<open>
  The same loop over another list walks that list's chain in the store. A chain that
  runs into itself makes it run for ever (\<open>None\<close>).
\<close>

partial_function (option) sll_loop ::
  "nat \<Rightarrow> Iterator \<Rightarrow> Iterator \<Rightarrow> 'a state \<Rightarrow> (unit result \<times> 'a state) option" where
  "sll_loop container_copy it insert_after_pos s =
     (if it_ne it cend then
        (case it_deref s it of
           Ok v \<Rightarrow>
             (case InsertAfter container_copy insert_after_pos v s of
                (Ok pos', s1) \<Rightarrow>
                  (case it_inc s1 it of
                     Ok it' \<Rightarrow> sll_loop container_copy it' pos' s1
                   | Throw e \<Rightarrow> Some (Throw e, s1)
                   | Abort \<Rightarrow> Some (Abort, s1))
              | (Throw e, s1) \<Rightarrow> Some (Throw e, s1)
              | (Abort, s1) \<Rightarrow> Some (Abort, s1))
         | Throw e \<Rightarrow> Some (Throw e, s)
         | Abort \<Rightarrow> Some (Abort, s))
      else Some (Ok (), s))"

definition CreateSingleLinkedList_sll ::
  "nat \<Rightarrow> nat \<Rightarrow> 'a state \<Rightarrow> (unit result \<times> 'a state) option" where
  "CreateSingleLinkedList_sll this container s =
     (case SingleLinkedList_default s of
        (container_copy, s0) \<Rightarrow>
          (case cbegin s0 container of
             None \<Rightarrow> Some (Abort, s0)
           | Some it \<Rightarrow>
               map_option (finish_create this container_copy)
                 (sll_loop container_copy it (before_begin container_copy) s0)))"

text \<open>
  The two constructors that fill the list: the members get their default initialisers,
  \<open>assert(size_ == 0 && head_.next_node == nullptr)\<close>, then \<open>CreateSingleLinkedList\<close>.
  When that throws the object was never constructed: no destructor runs for it and its
  storage ends.
\<close>

definition ctor_body :: "nat \<Rightarrow> unit result \<times> 'a state \<Rightarrow> nat result \<times> 'a state" where
  "ctor_body this created =
     (case created of
        (Ok u, s1) \<Rightarrow> (Ok this, s1)
      | (Throw e, s1) \<Rightarrow> (Throw e, release_obj this s1)
      | (Abort, s1) \<Rightarrow> (Abort, s1))"

definition SingleLinkedList_il :: "'a list \<Rightarrow> 'a state \<Rightarrow> nat result \<times> 'a state" where
  "SingleLinkedList_il values s =
     (case SingleLinkedList_default s of
        (this, s0) \<Rightarrow>
          (case obj s0 this of
             None \<Rightarrow> (Abort, s0)
           | Some L \<Rightarrow>
               if m_size L = 0 \<and> m_head_next L = None
               then ctor_body this (CreateSingleLinkedList_il this values s0)
               else (Abort, s0)))"

definition SingleLinkedList_copy :: "nat \<Rightarrow> 'a state \<Rightarrow> (nat result \<times> 'a state) option" where
  "SingleLinkedList_copy other s =
     (case SingleLinkedList_default s of
        (this, s0) \<Rightarrow>
          (case obj s0 this of
             None \<Rightarrow> Some (Abort, s0)
           | Some L \<Rightarrow>
               if m_size L = 0 \<and> m_head_next L = None
               then map_option (ctor_body this) (CreateSingleLinkedList_sll this other s0)
               else Some (Abort, s0)))"

text \<open>
  \<open>operator=\<close>: \<open>if (this != &rhs) { auto rhs_copy(rhs); swap(rhs_copy); } return *this;\<close>
  The local \<open>rhs_copy\<close> is destroyed at the end of its block.
\<close>

definition op_assign :: "nat \<Rightarrow> nat \<Rightarrow> 'a state \<Rightarrow> (nat result \<times> 'a state) option" where
  "op_assign this rhs s =
     (if this \<noteq> rhs then
        (case SingleLinkedList_copy rhs s of
           None \<Rightarrow> None
         | Some (Ok rhs_copy, s1) \<Rightarrow>
             (case swap this rhs_copy s1 of
                (Ok u, s2) \<Rightarrow>
                  (case destructor rhs_copy s2 of
                     (Ok u', s3) \<Rightarrow> Some (Ok this, s3)
                   | (Throw e, s3) \<Rightarrow> Some (Abort, s3)
                   | (Abort, s3) \<Rightarrow> Some (Abort, s3))
              | (Throw e, s2) \<Rightarrow> Some (Throw e, s2)
              | (Abort, s2) \<Rightarrow> Some (Abort, s2))
         | Some (Throw e, s1) \<Rightarrow> Some (Throw e, s1)
         | Some (Abort, s1) \<Rightarrow> Some (Abort, s1))
      else Some (Ok this, s))"

section \<open>Relational operators\<close>

text \<open>
  The element type's \<open>==\<close> and \<open><\<close> are parameters \<open>eq\<close> and \<open>lt\<close>.
  \<open>std::equal(first1, last1, first2)\<close> of the standard library:
  \<open>for (; first1 != last1; ++first1, ++first2) if (!(*first1 == *first2)) return false;
  return true;\<close>
\<close>

partial_function (option) std_equal ::
  "('a \<Rightarrow> 'a \<Rightarrow> bool) \<Rightarrow> 'a state \<Rightarrow> Iterator \<Rightarrow> Iterator \<Rightarrow> Iterator \<Rightarrow> bool result option" where
  "std_equal eq s first1 last1 first2 =
     (if it_ne first1 last1 then
        (case it_deref s first1 of
           Ok x \<Rightarrow>
             (case it_deref s first2 of
                Ok y \<Rightarrow>
                  if \<not> eq x y then Some (Ok False)
                  else
                    (case it_inc s first1 of
                       Ok f1 \<Rightarrow>
                         (case it_inc s first2 of
                            Ok f2 \<Rightarrow> std_equal eq s f1 last1 f2
                          | Throw e \<Rightarrow> Some (Throw e)
                          | Abort \<Rightarrow> Some Abort)
                     | Throw e \<Rightarrow> Some (Throw e)
                     | Abort \<Rightarrow> Some Abort)
              | Throw e \<Rightarrow> Some (Throw e)
              | Abort \<Rightarrow> Some Abort)
         | Throw e \<Rightarrow> Some (Throw e)
         | Abort \<Rightarrow> Some Abort)
      else Some (Ok True))"

text \<open>
  \<open>std::lexicographical_compare(first1, last1, first2, last2)\<close> of the standard library:
  \<open>for (; (first1 != last1) && (first2 != last2); ++first1, ++first2) {
     if (*first1 < *first2) return true; if (*first2 < *first1) return false; }
  return (first1 == last1) && (first2 != last2);\<close>
\<close>

partial_function (option) std_lexicographical_compare ::
  "('a \<Rightarrow> 'a \<Rightarrow> bool) \<Rightarrow> 'a state \<Rightarrow> Iterator \<Rightarrow> Iterator \<Rightarrow> Iterator \<Rightarrow> Iterator
     \<Rightarrow> bool result option" where
  "std_lexicographical_compare lt s first1 last1 first2 last2 =
     (if it_ne first1 last1 \<and> it_ne first2 last2 then
        (case it_deref s first1 of
           Ok x \<Rightarrow>
             (case it_deref s first2 of
                Ok y \<Rightarrow>
                  if lt x y then Some (Ok True)
                  else if lt y x then Some (Ok False)
                  else
                    (case it_inc s first1 of
                       Ok f1 \<Rightarrow>
                         (case it_inc s first2 of
                            Ok f2 \<Rightarrow> std_lexicographical_compare lt s f1 last1 f2 last2
                          | Throw e \<Rightarrow> Some (Throw e)
                          | Abort \<Rightarrow> Some Abort)
                     | Throw e \<Rightarrow> Some (Throw e)
                     | Abort \<Rightarrow> Some Abort)
              | Throw e \<Rightarrow> Some (Throw e)
              | Abort \<Rightarrow> Some Abort)
         | Throw e \<Rightarrow> Some (Throw e)
         | Abort \<Rightarrow> Some Abort)
      else Some (Ok (it_eq first1 last1 \<and> it_ne first2 last2)))"

text \<open>
  \<open>operator==\<close>:
  \<open>lhs.GetSize() == rhs.GetSize() && std::equal(lhs.begin(), lhs.end(), rhs.begin())\<close>
\<close>

definition op_eq :: "('a \<Rightarrow> 'a \<Rightarrow> bool) \<Rightarrow> 'a state \<Rightarrow> nat \<Rightarrow> nat \<Rightarrow> bool result option" where
  "op_eq eq s lhs rhs =
     (case GetSize s lhs of
        None \<Rightarrow> Some Abort
      | Some n1 \<Rightarrow>
          (case GetSize s rhs of
             None \<Rightarrow> Some Abort
           | Some n2 \<Rightarrow>
               if n1 = n2 then
                 (case cbegin s lhs of
                    None \<Rightarrow> Some Abort
                  | Some b1 \<Rightarrow>
                      (case cbegin s rhs of
                         None \<Rightarrow> Some Abort
                       | Some b2 \<Rightarrow> std_equal eq s b1 cend b2))
               else Some (Ok False)))"

definition not_result :: "bool result option \<Rightarrow> bool result option" where
  "not_result r =
     (case r of
        None \<Rightarrow> None
      | Some (Ok b) \<Rightarrow> Some (Ok (\<not> b))
      | Some (Throw e) \<Rightarrow> Some (Throw e)
      | Some Abort \<Rightarrow> Some Abort)"

text \<open>\<open>operator!=\<close>: \<open>!(lhs == rhs)\<close>\<close>

definition op_ne :: "('a \<Rightarrow> 'a \<Rightarrow> bool) \<Rightarrow> 'a state \<Rightarrow> nat \<Rightarrow> nat \<Rightarrow> bool result option" where
  "op_ne eq s lhs rhs = not_result (op_eq eq s lhs rhs)"

text \<open>
  \<open>operator<\<close>:
  \<open>std::lexicographical_compare(lhs.begin(), lhs.end(), rhs.begin(), rhs.end())\<close>
\<close>

definition op_lt :: "('a \<Rightarrow> 'a \<Rightarrow> bool) \<Rightarrow> 'a state \<Rightarrow> nat \<Rightarrow> nat \<Rightarrow> bool result option" where
  "op_lt lt s lhs rhs =
     (case cbegin s lhs of
        None \<Rightarrow> Some Abort
      | Some b1 \<Rightarrow>
          (case cbegin s rhs of
             None \<Rightarrow> Some Abort
           | Some b2 \<Rightarrow> std_lexicographical_compare lt s b1 cend b2 cend))"

text \<open>\<open>operator<=\<close>: \<open>!(rhs < lhs)\<close>\<close>

definition op_le :: "('a \<Rightarrow> 'a \<Rightarrow> bool) \<Rightarrow> 'a state \<Rightarrow> nat \<Rightarrow> nat \<Rightarrow> bool result option" where
  "op_le lt s lhs rhs = not_result (op_lt lt s rhs lhs)"

text \<open>\<open>operator>\<close>: \<open>rhs < lhs\<close>\<close>

definition op_gt :: "('a \<Rightarrow> 'a \<Rightarrow> bool) \<Rightarrow> 'a state \<Rightarrow> nat \<Rightarrow> nat \<Rightarrow> bool result option" where
  "op_gt lt s lhs rhs = op_lt lt s rhs lhs"

text \<open>\<open>operator>=\<close>: \<open>!(lhs < rhs)\<close>\<close>

definition op_ge :: "('a \<Rightarrow> 'a \<Rightarrow> bool) \<Rightarrow> 'a state \<Rightarrow> nat \<Rightarrow> nat \<Rightarrow> bool result option" where
  "op_ge lt s lhs rhs = not_result (op_lt lt s lhs rhs)"

section \<open>Observing a list\<close>

text \<open>
  The element sequence of a list is what a caller reads off it with the public
  iterators: \<open>for (auto it = l.begin(); it != l.end(); ++it) out.push_back(*it);\<close>
\<close>

partial_function (option) traverse ::
  "'a state \<Rightarrow> Iterator \<Rightarrow> 'a list \<Rightarrow> 'a list result option" where
  "traverse s it out =
     (if it_ne it list_end then
        (case it_deref s it of
           Ok v \<Rightarrow>
             (case it_inc s it of
                Ok it' \<Rightarrow> traverse s it' (out @ [v])
              | Throw e \<Rightarrow> Some (Throw e)
              | Abort \<Rightarrow> Some Abort)
         | Throw e \<Rightarrow> Some (Throw e)
         | Abort \<Rightarrow> Some Abort)
      else Some (Ok out))"

definition elements :: "'a state \<Rightarrow> nat \<Rightarrow> 'a list result option" where
  "elements s l =
     (case list_begin s l of
        None \<Rightarrow> Some Abort
      | Some it \<Rightarrow> traverse s it [])"

text \<open>
  The nodes of a list, as the cursors a caller meets on the same walk, and what it
  means for a cursor to refer into a list: it is the list's \<open>before_begin()\<close> or one
  of the cursors between \<open>begin()\<close> and \<open>end()\<close>.
\<close>

partial_function (option) cursors ::
  "'a state \<Rightarrow> Iterator \<Rightarrow> Iterator list \<Rightarrow> Iterator list result option" where
  "cursors s it out =
     (if it_ne it list_end then
        (case it_inc s it of
           Ok it' \<Rightarrow> cursors s it' (out @ [it])
         | Throw e \<Rightarrow> Some (Throw e)
         | Abort \<Rightarrow> Some Abort)
      else Some (Ok out))"

definition refers_into :: "'a state \<Rightarrow> nat \<Rightarrow> Iterator \<Rightarrow> bool" where
  "refers_into s l c =
     (c = before_begin l \<or>
      (case list_begin s l of
         None \<Rightarrow> False
       | Some it \<Rightarrow>
           (case cursors s it [] of
              Some (Ok cs) \<Rightarrow> c \<in> set cs
            | _ \<Rightarrow> False)))"

section \<open>Well-formed lists\<close>

text \<open>
  \<open>chain c p avs\<close>, for \<open>c\<close> the nodes of a store (\<open>cell s\<close>): from the pointer \<open>p\<close> the
  forward links run through exactly the live heap nodes at the addresses \<open>map fst avs\<close>,
  holding the values \<open>map snd avs\<close>, and end in the null pointer.
\<close>

fun chain :: "(nat \<Rightarrow> 'a Node option) \<Rightarrow> ptr option \<Rightarrow> (nat \<times> 'a) list \<Rightarrow> bool" where
  "chain c p [] = (p = None)"
| "chain c p ((a, v) # avs) =
     (p = Some (Cell a) \<and>
      (case c a of
         None \<Rightarrow> False
       | Some n \<Rightarrow> node_value n = v \<and> chain c (next_node n) avs))"

text \<open>
  \<open>is_list s l avs\<close>: \<open>l\<close> is a live list object whose sentinel heads the chain \<open>avs\<close>
  and whose \<open>size_\<close> is the number of its nodes (invariants 1 and 2 of the data model).
\<close>

definition is_list :: "'a state \<Rightarrow> nat \<Rightarrow> (nat \<times> 'a) list \<Rightarrow> bool" where
  "is_list s l avs =
     (case obj s l of
        None \<Rightarrow> False
      | Some L \<Rightarrow> chain (cell s) (m_head_next L) avs \<and> m_size L = length avs)"

text \<open>
  \<open>seg c p avs q\<close>: the stretch of a chain that starts at \<open>p\<close>, runs through the nodes
  \<open>avs\<close> and whose last forward link is \<open>q\<close>.
\<close>

fun seg :: "(nat \<Rightarrow> 'a Node option) \<Rightarrow> ptr option \<Rightarrow> (nat \<times> 'a) list \<Rightarrow> ptr option \<Rightarrow> bool" where
  "seg c p [] q = (p = q)"
| "seg c p ((a, v) # avs) q =
     (p = Some (Cell a) \<and>
      (case c a of
         None \<Rightarrow> False
       | Some n \<Rightarrow> node_value n = v \<and> seg c (next_node n) avs q))"

text \<open>
  The cursor that references the last node of the prefix \<open>pre\<close> of the chain of \<open>l\<close>:
  the sentinel for the empty prefix. \<open>first_of avs\<close> is the cursor to the first node of
  \<open>avs\<close>, the end cursor when there is none.
\<close>

definition cursor_after :: "nat \<Rightarrow> (nat \<times> 'a) list \<Rightarrow> Iterator" where
  "cursor_after l pre = (if pre = [] then before_begin l else Some (Cell (fst (last pre))))"

definition first_of :: "(nat \<times> 'a) list \<Rightarrow> Iterator" where
  "first_of avs = (case avs of [] \<Rightarrow> None | (a, v) # r \<Rightarrow> Some (Cell a))"

text \<open>What the schedule holds for the coming \<open>new Node\<close>.\<close>

definition next_fault :: "'a state \<Rightarrow> exn option" where
  "next_fault s = (case faults s of Some e # fs \<Rightarrow> Some e | _ \<Rightarrow> None)"

text \<open>
  The exception, if any, that the schedule \<open>fs\<close> holds for one of the coming \<open>n\<close>
  \<open>new Node\<close> expressions.
\<close>

fun first_fault :: "nat \<Rightarrow> exn option list \<Rightarrow> exn option" where
  "first_fault 0 fs = None"
| "first_fault (Suc n) [] = None"
| "first_fault (Suc n) (None # fs) = first_fault n fs"
| "first_fault (Suc n) (Some e # fs) = Some e"

text \<open>The nodes a run of successful \<open>new Node\<close> makes for the values \<open>vs\<close>, from address \<open>n\<close> on.\<close>

definition fresh_nodes :: "nat \<Rightarrow> 'a list \<Rightarrow> (nat \<times> 'a) list" where
  "fresh_nodes n vs = zip [n..<n + length vs] vs"

section \<open>Example stores\<close>

text \<open>The store before anything is constructed, with a schedule that lets every \<open>new\<close> succeed.\<close>

definition ex_empty :: "int state" where
  "ex_empty = \<lparr>heap = [], objs = [], faults = []\<rparr>"

text \<open>A store with one list object, number 0, holding 1, 2, 3.\<close>

definition ex_list_123 :: "int state" where
  "ex_list_123 =
     \<lparr>heap = [Some \<lparr>node_value = 1, next_node = Some (Cell 1)\<rparr>,
              Some \<lparr>node_value = 2, next_node = Some (Cell 2)\<rparr>,
              Some \<lparr>node_value = 3, next_node = None\<rparr>],
      objs = [Some \<lparr>m_head_next = Some (Cell 0), m_size = 3\<rparr>],
      faults = []\<rparr>"

text \<open>A store with two list objects: number 0 holds 1, 2, 3 and number 1 holds 1, 2, 4.\<close>

definition ex_lists_123_124 :: "int state" where
  "ex_lists_123_124 =
     \<lparr>heap = [Some \<lparr>node_value = 1, next_node = Some (Cell 1)\<rparr>,
              Some \<lparr>node_value = 2, next_node = Some (Cell 2)\<rparr>,
              Some \<lparr>node_value = 3, next_node = None\<rparr>,
              Some \<lparr>node_value = 1, next_node = Some (Cell 4)\<rparr>,
              Some \<lparr>node_value = 2, next_node = Some (Cell 5)\<rparr>,
              Some \<lparr>node_value = 4, next_node = None\<rparr>],
      objs = [Some \<lparr>m_head_next = Some (Cell 0), m_size = 3\<rparr>,
              Some \<lparr>m_head_next = Some (Cell 3), m_size = 3\<rparr>],
      faults = []\<rparr>"

text \<open>A store with two list objects: number 0 holds 1, 2, 3 and number 1 holds 9, 8.\<close>

definition ex_lists_123_98 :: "int state" where
  "ex_lists_123_98 =
     \<lparr>heap = [Some \<lparr>node_value = 1, next_node = Some (Cell 1)\<rparr>,
              Some \<lparr>node_value = 2, next_node = Some (Cell 2)\<rparr>,
              Some \<lparr>node_value = 3, next_node = None\<rparr>,
              Some \<lparr>node_value = 9, next_node = Some (Cell 4)\<rparr>,
              Some \<lparr>node_value = 8, next_node = None\<rparr>],
      objs = [Some \<lparr>m_head_next = Some (Cell 0), m_size = 3\<rparr>,
              Some \<lparr>m_head_next = Some (Cell 3), m_size = 2\<rparr>],
      faults = []\<rparr>"

text \<open>
  The same two lists, with a schedule in which the second coming \<open>new Node\<close> throws from
  the element's copy constructor.
\<close>

definition ex_lists_123_98_throwing :: "int state" where
  "ex_lists_123_98_throwing = ex_lists_123_98\<lparr>faults := [None, Some copy_failure]\<rparr>"

section \<open>Store lemmas\<close>

lemma cell_Some_less: "cell s a = Some n \<Longrightarrow> a < length (heap s)"
  by (simp add: cell_def split: if_splits)

lemma obj_Some_less: "obj s l = Some L \<Longrightarrow> l < length (objs s)"
  by (simp add: obj_def split: if_splits)

lemma cell_set_obj [simp]: "cell (set_obj l L s) = cell s"
  by (rule ext) (simp add: cell_def set_obj_def)

lemma heap_set_obj [simp]: "heap (set_obj l L s) = heap s"
  by (simp add: set_obj_def)

lemma faults_set_obj [simp]: "faults (set_obj l L s) = faults s"
  by (simp add: set_obj_def)

lemma length_objs_set_obj [simp]: "length (objs (set_obj l L s)) = length (objs s)"
  by (simp add: set_obj_def)

lemma obj_set_obj:
  "obj (set_obj l L s) k = (if k = l \<and> l < length (objs s) then Some L else obj s k)"
  by (simp add: obj_def set_obj_def)

lemma obj_set_obj_live [simp]:
  "obj s l = Some L0 \<Longrightarrow> obj (set_obj l L s) = (obj s)(l \<mapsto> L)"
  by (rule ext) (auto simp: obj_set_obj dest: obj_Some_less)

lemma cell_release_obj [simp]: "cell (release_obj l s) = cell s"
  by (rule ext) (simp add: cell_def release_obj_def)

lemma obj_release_obj [simp]: "obj (release_obj l s) = (obj s)(l := None)"
  by (rule ext) (auto simp: obj_def release_obj_def)

lemma cell_heap_update:
  "a < length (heap s) \<Longrightarrow> cell (s\<lparr>heap := (heap s)[a := x]\<rparr>) = (cell s)(a := x)"
  by (rule ext) (simp add: cell_def)

lemma obj_heap_upd [simp]: "obj (s\<lparr>heap := h\<rparr>) = obj s"
  by (rule ext) (simp add: obj_def)

lemma cell_heap_append:
  "cell (s\<lparr>heap := heap s @ [x]\<rparr>) = (cell s)(length (heap s) := x)"
  by (rule ext) (auto simp: cell_def nth_append)

lemma cell_faults_upd [simp]: "cell (s\<lparr>faults := f\<rparr>) = cell s"
  by (rule ext) (simp add: cell_def)

lemma obj_faults_upd [simp]: "obj (s\<lparr>faults := f\<rparr>) = obj s"
  by (rule ext) (simp add: obj_def)

section \<open>Chains\<close>

lemma chain_less: "chain (cell s) p avs \<Longrightarrow> (a, v) \<in> set avs \<Longrightarrow> a < length (heap s)"
  by (induction avs arbitrary: p) (auto split: option.splits dest: cell_Some_less)

lemma chain_cong:
  "(\<And>a. a \<in> fst ` set avs \<Longrightarrow> c' a = c a) \<Longrightarrow> chain c' p avs = chain c p avs"
  by (induction avs arbitrary: p) (auto split: option.splits)

lemma chain_upd [simp]:
  "a \<notin> fst ` set avs \<Longrightarrow> chain (c(a := x)) p avs = chain c p avs"
  by (rule chain_cong) auto

lemma chain_fun: "chain c p avs \<Longrightarrow> chain c p bvs \<Longrightarrow> avs = bvs"
proof (induction avs arbitrary: p bvs)
  case Nil
  then show ?case by (cases bvs) auto
next
  case (Cons x avs)
  then show ?case
    by (cases bvs; cases x) (auto split: option.splits)
qed

lemma chain_append:
  "chain c p (avs @ bvs) \<Longrightarrow> \<exists>q. chain c q bvs"
  by (induction avs arbitrary: p) (auto split: option.splits)

lemma chain_not_in_tail:
  assumes "chain c p ((a, v) # avs)" shows "a \<notin> fst ` set avs"
proof
  assume "a \<in> fst ` set avs"
  then obtain w where "(a, w) \<in> set avs" by auto
  then obtain xs ys where avs: "avs = xs @ (a, w) # ys"
    by (auto simp: in_set_conv_decomp)
  from assms obtain n where n: "c a = Some n" "chain c (next_node n) avs"
    by (auto split: option.splits)
  from assms have "chain c (Some (Cell a)) ((a, v) # avs)" by (auto split: option.splits)
  moreover
  from n(2) avs have "\<exists>q. chain c q ((a, w) # ys)" using chain_append by blast
  then have "chain c (Some (Cell a)) ((a, w) # ys)" by (auto split: option.splits)
  ultimately have "(a, v) # avs = (a, w) # ys" by (rule chain_fun)
  with avs show False by simp
qed

lemma chain_distinct: "chain c p avs \<Longrightarrow> distinct (map fst avs)"
proof (induction avs arbitrary: p)
  case Nil
  then show ?case by simp
next
  case (Cons x avs)
  obtain a v where x: "x = (a, v)" by (cases x)
  from Cons.prems have ch: "chain c p ((a, v) # avs)" unfolding x .
  then have "a \<notin> fst ` set avs" by (rule chain_not_in_tail)
  moreover from ch obtain n where "c a = Some n" "chain c (next_node n) avs"
    by (cases "c a") simp_all
  then have "distinct (map fst avs)" using Cons.IH by blast
  ultimately show ?case unfolding x by simp
qed

section \<open>Walking a chain\<close>

lemma traverse_chain:
  "chain (cell s) p avs \<Longrightarrow> traverse s p out = Some (Ok (out @ map snd avs))"
proof (induction avs arbitrary: p out)
  case Nil
  then show ?case by (subst traverse.simps) (simp add: it_ne_def list_end_def)
next
  case (Cons x avs)
  obtain a v where x: "x = (a, v)" by (cases x)
  from Cons.prems obtain n where p: "p = Some (Cell a)" and n: "cell s a = Some n"
    and v: "node_value n = v" and ch: "chain (cell s) (next_node n) avs"
    unfolding x by (cases "cell s a") simp_all
  have "traverse s p out = traverse s (next_node n) (out @ [v])"
    by (subst traverse.simps)
      (simp add: p n v it_ne_def list_end_def it_deref_def it_inc_def get_next_def)
  also have "\<dots> = Some (Ok ((out @ [v]) @ map snd avs))" using ch by (rule Cons.IH)
  finally show ?case by (simp add: x)
qed

lemma elements_is_list: "is_list s l avs \<Longrightarrow> elements s l = Some (Ok (map snd avs))"
  by (auto simp: is_list_def elements_def list_begin_def traverse_chain split: option.splits)

lemma GetSize_is_list: "is_list s l avs \<Longrightarrow> GetSize s l = Some (length avs)"
  by (auto simp: is_list_def GetSize_def split: option.splits)

lemma cursors_chain:
  "chain (cell s) p avs \<Longrightarrow>
   cursors s p out = Some (Ok (out @ map (\<lambda>av. Some (Cell (fst av))) avs))"
proof (induction avs arbitrary: p out)
  case Nil
  then show ?case by (subst cursors.simps) (simp add: it_ne_def list_end_def)
next
  case (Cons x avs)
  obtain a v where x: "x = (a, v)" by (cases x)
  from Cons.prems obtain n where p: "p = Some (Cell a)" and n: "cell s a = Some n"
    and ch: "chain (cell s) (next_node n) avs"
    unfolding x by (cases "cell s a") simp_all
  have "cursors s p out = cursors s (next_node n) (out @ [p])"
    by (subst cursors.simps) (simp add: p n it_ne_def list_end_def it_inc_def get_next_def)
  also have "\<dots> = Some (Ok ((out @ [p]) @ map (\<lambda>av. Some (Cell (fst av))) avs))"
    using ch by (rule Cons.IH)
  finally show ?case by (simp add: x p)
qed

lemma refers_into_is_list:
  assumes "is_list s l avs"
  shows "refers_into s l c = (c = Some (Head l) \<or> (\<exists>a \<in> fst ` set avs. c = Some (Cell a)))"
proof -
  from assms obtain L where L: "obj s l = Some L" "chain (cell s) (m_head_next L) avs"
    by (auto simp: is_list_def split: option.splits)
  have "(c \<in> (\<lambda>av. Some (Cell (fst av))) ` set avs) = (\<exists>a \<in> fst ` set avs. c = Some (Cell a))"
    by force
  then show ?thesis
    by (simp add: refers_into_def list_begin_def before_begin_def L cursors_chain [OF L(2)])
qed

lemma chain_first_of: "chain c p avs \<Longrightarrow> p = first_of avs"
  by (cases avs) (auto simp: first_of_def)

lemma chain_split: "chain c p (pre @ post) = (\<exists>q. seg c p pre q \<and> chain c q post)"
  by (induction pre arbitrary: p) (auto split: option.splits)

lemma seg_snoc:
  "seg c p (pre @ [(a, v)]) q =
   (seg c p pre (Some (Cell a)) \<and> (\<exists>n. c a = Some n \<and> node_value n = v \<and> next_node n = q))"
  by (induction pre arbitrary: p) (auto split: option.splits)

lemma seg_cong:
  "(\<And>a. a \<in> fst ` set avs \<Longrightarrow> c' a = c a) \<Longrightarrow> seg c' p avs q = seg c p avs q"
  by (induction avs arbitrary: p) (auto split: option.splits)

lemma seg_upd [simp]:
  "a \<notin> fst ` set avs \<Longrightarrow> seg (c(a := x)) p avs q = seg c p avs q"
  by (rule seg_cong) auto

lemma chain_Cons_iff:
  "chain c p ((a, v) # avs) =
   (p = Some (Cell a) \<and> (\<exists>n. c a = Some n \<and> node_value n = v \<and> chain c (next_node n) avs))"
  by (auto split: option.splits)

lemma seg_Cons_iff:
  "seg c p ((a, v) # avs) q =
   (p = Some (Cell a) \<and> (\<exists>n. c a = Some n \<and> node_value n = v \<and> seg c (next_node n) avs q))"
  by (auto split: option.splits)

declare chain.simps(2) [simp del] seg.simps(2) [simp del]
declare chain_Cons_iff [simp] seg_Cons_iff [simp]

lemma is_list_iff:
  "is_list s l avs =
   (\<exists>L. obj s l = Some L \<and> chain (cell s) (m_head_next L) avs \<and> m_size L = length avs)"
  by (auto simp: is_list_def split: option.splits)

lemma get_next_Head [simp]: "get_next s (Head l) = map_option m_head_next (obj s l)"
  by (simp add: get_next_def)

lemma get_next_Cell [simp]: "get_next s (Cell a) = map_option next_node (cell s a)"
  by (simp add: get_next_def)

lemma delete_Node_Cell:
  "cell s d = Some n \<Longrightarrow> delete_Node (Cell d) s = Some (s\<lparr>heap := (heap s)[d := None]\<rparr>)"
  by (simp add: delete_Node_def)

lemma set_next_Head:
  "obj s l = Some L \<Longrightarrow> set_next (Head l) q s = Some (set_obj l (L\<lparr>m_head_next := q\<rparr>) s)"
  by (simp add: set_next_def)

lemma set_next_Cell:
  "cell s a = Some n \<Longrightarrow>
   set_next (Cell a) q s = Some (s\<lparr>heap := (heap s)[a := Some (n\<lparr>next_node := q\<rparr>)]\<rparr>)"
  by (simp add: set_next_def)

lemma cell_heap_update_live:
  "cell s a = Some n \<Longrightarrow> cell (s\<lparr>heap := (heap s)[a := x]\<rparr>) = (cell s)(a := x)"
  by (rule cell_heap_update) (rule cell_Some_less)

lemma set_obj_heap_commute:
  "set_obj l L (s\<lparr>heap := h\<rparr>) = (set_obj l L s)\<lparr>heap := h\<rparr>"
  by (simp add: set_obj_def)

lemma set_obj_twice [simp]: "set_obj l L (set_obj l L' s) = set_obj l L s"
  by (simp add: set_obj_def)

lemma objs_heap_upd_len [simp]: "length (heap (s\<lparr>heap := (heap s)[a := x]\<rparr>)) = length (heap s)"
  by simp

lemma EraseAfter_spec:
  assumes "is_list s l (pre @ (d, v) # post)"
  shows "\<exists>s'. EraseAfter l (cursor_after l pre) s = (Ok (first_of post), s') \<and>
           is_list s' l (pre @ post) \<and> cell s' d = None \<and>
           (\<forall>a. a \<noteq> d \<longrightarrow> cursor_after l pre \<noteq> Some (Cell a) \<longrightarrow> cell s' a = cell s a) \<and>
           (\<forall>k. k \<noteq> l \<longrightarrow> obj s' k = obj s k) \<and>
           length (heap s') = length (heap s) \<and> length (objs s') = length (objs s) \<and>
           faults s' = faults s"
proof -
  from assms obtain L where L: "obj s l = Some L"
    and ch: "chain (cell s) (m_head_next L) (pre @ (d, v) # post)"
    and sz: "m_size L = length (pre @ (d, v) # post)"
    by (auto simp: is_list_iff)
  from ch have dist: "distinct (map fst (pre @ (d, v) # post))" by (rule chain_distinct)
  from ch obtain q where sg: "seg (cell s) (m_head_next L) pre q"
    and chq: "chain (cell s) q ((d, v) # post)"
    by (auto simp: chain_split)
  from chq obtain n where q: "q = Some (Cell d)" and n: "cell s d = Some n"
    and nv: "node_value n = v" and chp: "chain (cell s) (next_node n) post"
    by (auto simp: chain_Cons_iff)
  have nx: "next_node n = first_of post" using chp by (rule chain_first_of)
  have dpost: "d \<notin> fst ` set post" and dpre: "d \<notin> fst ` set pre" using dist by auto
  show ?thesis
  proof (cases "pre = []")
    case True
    with sg q have hd: "m_head_next L = Some (Cell d)" by simp
    define s' where
      "s' = set_obj l (L\<lparr>m_head_next := next_node n, m_size := m_size L - 1\<rparr>)
              (s\<lparr>heap := (heap s)[d := None]\<rparr>)"
    have run: "EraseAfter l (cursor_after l pre) s = (Ok (first_of post), s')"
      unfolding s'_def using True L hd n nx
      by (simp add: EraseAfter_def cursor_after_def before_begin_def delete_Node_Cell
          set_next_Head sz)
    have c1: "cell s' = (cell s)(d := None)"
      unfolding s'_def by (simp add: cell_heap_update_live [OF n])
    have o1: "obj s' = (obj s)(l \<mapsto> L\<lparr>m_head_next := next_node n, m_size := m_size L - 1\<rparr>)"
      unfolding s'_def using L by simp
    have "is_list s' l (pre @ post)"
      using True chp dpost sz by (simp add: is_list_iff c1 o1)
    moreover have "length (objs s') = length (objs s)" "length (heap s') = length (heap s)"
      "faults s' = faults s"
      unfolding s'_def by simp_all
    ultimately show ?thesis using run c1 o1 by (intro exI [of _ s']) simp
  next
    case False
    then obtain pre' pa pv where pre: "pre = pre' @ [(pa, pv)]"
      by (cases pre rule: rev_cases) auto
    from sg obtain m where sg': "seg (cell s) (m_head_next L) pre' (Some (Cell pa))"
      and m: "cell s pa = Some m" and mv: "node_value m = pv" and mn: "next_node m = q"
      by (auto simp: pre seg_snoc)
    have neq: "pa \<noteq> d" and papost: "pa \<notin> fst ` set post" and papre: "pa \<notin> fst ` set pre'"
      and dpre': "d \<notin> fst ` set pre'"
      using dist by (auto simp: pre)
    define s1 where "s1 = s\<lparr>heap := (heap s)[d := None]\<rparr>"
    define s2 where "s2 = s1\<lparr>heap := (heap s1)[pa := Some (m\<lparr>next_node := next_node n\<rparr>)]\<rparr>"
    define s' where "s' = set_obj l (L\<lparr>m_size := m_size L - 1\<rparr>) s2"
    have d1: "delete_Node (Cell d) s = Some s1"
      unfolding s1_def by (rule delete_Node_Cell [OF n])
    have c1: "cell s1 = (cell s)(d := None)"
      unfolding s1_def by (simp add: cell_heap_update_live [OF n])
    have m1: "cell s1 pa = Some m" using m neq by (simp add: c1)
    have sn: "set_next (Cell pa) (next_node n) s1 = Some s2"
      unfolding s2_def by (rule set_next_Cell [OF m1])
    have c2: "cell s2 = (cell s)(d := None, pa \<mapsto> m\<lparr>next_node := next_node n\<rparr>)"
      unfolding s2_def by (simp only: cell_heap_update_live [OF m1] c1)
    have o2: "obj s2 = obj s" unfolding s2_def s1_def by simp
    have run: "EraseAfter l (cursor_after l pre) s = (Ok (first_of post), s')"
      unfolding s'_def using L m mn q n nx sn d1 o2
      by (simp add: EraseAfter_def cursor_after_def pre sz)
    have c': "cell s' = (cell s)(d := None, pa \<mapsto> m\<lparr>next_node := next_node n\<rparr>)"
      unfolding s'_def using c2 by simp
    have o': "obj s' = (obj s)(l \<mapsto> L\<lparr>m_size := m_size L - 1\<rparr>)"
      unfolding s'_def using L o2 by simp
    have "chain (cell s') (m_head_next L) (pre' @ (pa, pv) # post)"
      unfolding c' chain_split
      using sg' mv chp papost dpost papre dpre'
      by (intro exI [of _ "Some (Cell pa)"]) simp
    then have "is_list s' l (pre @ post)"
      using sz by (simp add: is_list_iff o' pre)
    moreover have "length (objs s') = length (objs s)" "length (heap s') = length (heap s)"
      "faults s' = faults s"
      unfolding s'_def s2_def s1_def by simp_all
    moreover have "cursor_after l pre = Some (Cell pa)" by (simp add: cursor_after_def pre)
    ultimately show ?thesis using run c' o' neq by (intro exI [of _ s']) simp
  qed
qed

lemma new_Node_ok:
  "next_fault s = None \<Longrightarrow>
   new_Node v nx s =
     (Ok (Cell (length (heap s))),
      s\<lparr>heap := heap s @ [Some \<lparr>node_value = v, next_node = nx\<rparr>], faults := tl (faults s)\<rparr>)"
  by (auto simp: new_Node_def next_fault_def split: list.splits option.splits)

lemma new_Node_throw:
  "next_fault s = Some e \<Longrightarrow> new_Node v nx s = (Throw e, s\<lparr>faults := tl (faults s)\<rparr>)"
  by (auto simp: new_Node_def next_fault_def split: list.splits option.splits)

lemma cell_fresh [simp]: "cell s (length (heap s)) = None"
  by (simp add: cell_def)

lemma InsertAfter_throw:
  assumes "is_list s l (pre @ post)" and "next_fault s = Some e"
  shows "InsertAfter l (cursor_after l pre) v s = (Throw e, s\<lparr>faults := tl (faults s)\<rparr>)"
proof -
  from assms(1) obtain L where L: "obj s l = Some L"
    and ch: "chain (cell s) (m_head_next L) (pre @ post)"
    by (auto simp: is_list_iff)
  show ?thesis
  proof (cases "pre = []")
    case True
    then show ?thesis
      using L by (simp add: InsertAfter_def cursor_after_def before_begin_def
          new_Node_throw [OF assms(2)])
  next
    case False
    then obtain pre' pa pv where pre: "pre = pre' @ [(pa, pv)]"
      by (cases pre rule: rev_cases) auto
    from ch obtain m where "cell s pa = Some m"
      by (auto simp: pre chain_split seg_snoc)
    then show ?thesis
      by (simp add: InsertAfter_def cursor_after_def pre new_Node_throw [OF assms(2)])
  qed
qed

lemma InsertAfter_ok:
  assumes "is_list s l (pre @ post)" and "next_fault s = None"
  shows "\<exists>s'. InsertAfter l (cursor_after l pre) v s = (Ok (Some (Cell (length (heap s)))), s') \<and>
           is_list s' l (pre @ (length (heap s), v) # post) \<and>
           (\<forall>a. a < length (heap s) \<longrightarrow> cursor_after l pre \<noteq> Some (Cell a) \<longrightarrow>
                cell s' a = cell s a) \<and>
           (\<forall>k. k \<noteq> l \<longrightarrow> obj s' k = obj s k) \<and>
           length (heap s') = Suc (length (heap s)) \<and> length (objs s') = length (objs s) \<and>
           faults s' = tl (faults s)"
proof -
  from assms(1) obtain L where L: "obj s l = Some L"
    and ch: "chain (cell s) (m_head_next L) (pre @ post)"
    and sz: "m_size L = length (pre @ post)"
    by (auto simp: is_list_iff)
  define n where "n = length (heap s)"
  from ch obtain q where sg: "seg (cell s) (m_head_next L) pre q"
    and chq: "chain (cell s) q post"
    by (auto simp: chain_split)
  have fresh: "n \<notin> fst ` set (pre @ post)"
    using chain_less [OF ch] by (force simp: n_def)
  then have npre: "n \<notin> fst ` set pre" and npost: "n \<notin> fst ` set post" by auto
  define s1 where
    "s1 = s\<lparr>heap := heap s @ [Some \<lparr>node_value = v, next_node = q\<rparr>], faults := tl (faults s)\<rparr>"
  have nn: "new_Node v q s = (Ok (Cell n), s1)"
    unfolding s1_def n_def by (rule new_Node_ok [OF assms(2)])
  have c1: "cell s1 = (cell s)(n \<mapsto> \<lparr>node_value = v, next_node = q\<rparr>)"
    unfolding s1_def n_def by (rule ext) (auto simp: cell_def nth_append)
  have o1: "obj s1 = obj s" unfolding s1_def by (rule ext) (simp add: obj_def)
  have l1: "length (heap s1) = Suc n" "length (objs s1) = length (objs s)"
    "faults s1 = tl (faults s)"
    unfolding s1_def n_def by simp_all
  show ?thesis
  proof (cases "pre = []")
    case True
    with sg have hd: "m_head_next L = q" by simp
    define s' where
      "s' = set_obj l (L\<lparr>m_head_next := Some (Cell n), m_size := m_size L + 1\<rparr>) s1"
    have L1: "obj s1 l = Some L" using L o1 by simp
    have run: "InsertAfter l (cursor_after l pre) v s = (Ok (Some (Cell n)), s')"
      unfolding s'_def using True L hd nn L1
      by (simp add: InsertAfter_def cursor_after_def before_begin_def set_next_Head)
    have c': "cell s' = (cell s)(n \<mapsto> \<lparr>node_value = v, next_node = q\<rparr>)"
      unfolding s'_def using c1 by simp
    have o': "obj s' = (obj s)(l \<mapsto> L\<lparr>m_head_next := Some (Cell n), m_size := m_size L + 1\<rparr>)"
      unfolding s'_def using L1 o1 by simp
    have "is_list s' l (pre @ (n, v) # post)"
      using True chq npost sz by (simp add: is_list_iff c' o')
    moreover have "length (heap s') = Suc n" "length (objs s') = length (objs s)"
      "faults s' = tl (faults s)"
      unfolding s'_def using l1 by simp_all
    ultimately show ?thesis using run c' o' unfolding n_def [symmetric]
      by (intro exI [of _ s']) simp
  next
    case False
    then obtain pre' pa pv where pre: "pre = pre' @ [(pa, pv)]"
      by (cases pre rule: rev_cases) auto
    from sg obtain m where sg': "seg (cell s) (m_head_next L) pre' (Some (Cell pa))"
      and m: "cell s pa = Some m" and mv: "node_value m = pv" and mn: "next_node m = q"
      by (auto simp: pre seg_snoc)
    from ch have dist: "distinct (map fst (pre @ post))" by (rule chain_distinct)
    have papost: "pa \<notin> fst ` set post" and papre: "pa \<notin> fst ` set pre'"
      using dist by (auto simp: pre)
    have pan: "pa \<noteq> n" using npre by (auto simp: pre)
    have npre': "n \<notin> fst ` set pre'" using npre by (auto simp: pre)
    define s2 where "s2 = s1\<lparr>heap := (heap s1)[pa := Some (m\<lparr>next_node := Some (Cell n)\<rparr>)]\<rparr>"
    define s' where "s' = set_obj l (L\<lparr>m_size := m_size L + 1\<rparr>) s2"
    have m1: "cell s1 pa = Some m" using m pan by (simp add: c1)
    have sn: "set_next (Cell pa) (Some (Cell n)) s1 = Some s2"
      unfolding s2_def by (rule set_next_Cell [OF m1])
    have c2: "cell s2 = (cell s)(n \<mapsto> \<lparr>node_value = v, next_node = q\<rparr>,
                              pa \<mapsto> m\<lparr>next_node := Some (Cell n)\<rparr>)"
      unfolding s2_def by (simp only: cell_heap_update_live [OF m1] c1)
    have o2: "obj s2 = obj s" unfolding s2_def using o1 by simp
    have run: "InsertAfter l (cursor_after l pre) v s = (Ok (Some (Cell n)), s')"
      unfolding s'_def using L m mn nn sn o2 c2
      by (simp add: InsertAfter_def cursor_after_def pre)
    have c': "cell s' = (cell s)(n \<mapsto> \<lparr>node_value = v, next_node = q\<rparr>,
                              pa \<mapsto> m\<lparr>next_node := Some (Cell n)\<rparr>)"
      unfolding s'_def using c2 by simp
    have o': "obj s' = (obj s)(l \<mapsto> L\<lparr>m_size := m_size L + 1\<rparr>)"
      unfolding s'_def using L o2 by simp
    have "chain (cell s') (m_head_next L) (pre' @ (pa, pv) # (n, v) # post)"
      unfolding c' chain_split
      using sg' mv chq papost npost papre npre' pan
      by (intro exI [of _ "Some (Cell pa)"]) simp
    then have "is_list s' l (pre @ (n, v) # post)"
      using sz by (simp add: is_list_iff o' pre)
    moreover have "length (heap s') = Suc n" "length (objs s') = length (objs s)"
      "faults s' = tl (faults s)"
      unfolding s'_def s2_def using l1 by simp_all
    moreover have "cursor_after l pre = Some (Cell pa)" by (simp add: cursor_after_def pre)
    ultimately show ?thesis using run c' o' pan unfolding n_def [symmetric]
      by (intro exI [of _ s']) auto
  qed
qed

lemma cell_beyond: "length (heap s) \<le> a \<Longrightarrow> cell s a = None"
  by (simp add: cell_def)

lemma obj_beyond: "length (objs s) \<le> l \<Longrightarrow> obj s l = None"
  by (simp add: obj_def)

lemma PopFront_spec:
  assumes "is_list s l ((d, v) # post)"
  shows "\<exists>s'. PopFront l s = (Ok (), s') \<and> is_list s' l post \<and>
           cell s' = (cell s)(d := None) \<and> (\<forall>k. k \<noteq> l \<longrightarrow> obj s' k = obj s k) \<and>
           length (heap s') = length (heap s) \<and> length (objs s') = length (objs s) \<and>
           faults s' = faults s"
proof -
  from assms obtain L where L: "obj s l = Some L"
    and ch: "chain (cell s) (m_head_next L) ((d, v) # post)"
    and sz: "m_size L = Suc (length post)"
    unfolding is_list_iff by auto
  from ch obtain n where hd: "m_head_next L = Some (Cell d)"
    and n: "cell s d = Some n" and chp: "chain (cell s) (next_node n) post"
    by auto
  from ch have "distinct (map fst ((d, v) # post))" by (rule chain_distinct)
  then have dpost: "d \<notin> fst ` set post" by auto
  define s' where
    "s' = set_obj l (L\<lparr>m_head_next := next_node n, m_size := m_size L - 1\<rparr>)
            (s\<lparr>heap := (heap s)[d := None]\<rparr>)"
  have run: "PopFront l s = (Ok (), s')"
    unfolding s'_def using L hd n
    by (simp add: PopFront_def delete_Node_Cell sz)
  have c1: "cell s' = (cell s)(d := None)"
    unfolding s'_def by (simp add: cell_heap_update_live [OF n])
  have o1: "obj s' = (obj s)(l \<mapsto> L\<lparr>m_head_next := next_node n, m_size := m_size L - 1\<rparr>)"
    unfolding s'_def using L by simp
  have "is_list s' l post"
    using chp dpost sz by (simp add: is_list_iff c1 o1)
  moreover have "length (objs s') = length (objs s)" "length (heap s') = length (heap s)"
    "faults s' = faults s"
    unfolding s'_def by simp_all
  ultimately show ?thesis using run c1 o1 by (intro exI [of _ s']) simp
qed

lemma is_list_obj_eq:
  assumes "is_list s l avs" and "is_list s' l avs"
  shows "obj s' l = obj s l"
proof -
  from assms obtain L L' where L: "obj s l = Some L" "chain (cell s) (m_head_next L) avs"
    "m_size L = length avs"
    and L': "obj s' l = Some L'" "chain (cell s') (m_head_next L') avs" "m_size L' = length avs"
    by (auto simp: is_list_iff)
  have "m_head_next L = first_of avs" "m_head_next L' = first_of avs"
    using L(2) L'(2) by (auto dest: chain_first_of)
  then have "L' = L" using L(3) L'(3) by simp
  then show ?thesis using L(1) L'(1) by simp
qed

section \<open>Front and positional operations\<close>

lemma PushFront_as_InsertAfter:
  "PushFront l v s =
     (case InsertAfter l (before_begin l) v s of
        (Ok it, s') \<Rightarrow> (Ok (), s')
      | (Throw e, s') \<Rightarrow> (Throw e, s')
      | (Abort, s') \<Rightarrow> (Abort, s'))"
proof (cases "obj s l")
  case None
  then show ?thesis by (simp add: InsertAfter_def PushFront_def before_begin_def)
next
  case (Some L)
  show ?thesis
  proof (cases "next_fault s")
    case None
    have "obj (s\<lparr>heap := heap s @ [Some \<lparr>node_value = v, next_node = m_head_next L\<rparr>],
                faults := tl (faults s)\<rparr>) = obj s"
      by (rule ext) (simp add: obj_def)
    then show ?thesis using Some
      by (simp add: InsertAfter_def PushFront_def before_begin_def new_Node_ok [OF None]
          set_next_Head)
  next
    case (Some e)
    then show ?thesis using \<open>obj s l = Some L\<close>
      by (simp add: InsertAfter_def PushFront_def before_begin_def new_Node_throw)
  qed
qed

lemma cursor_after_Nil [simp]: "cursor_after l [] = before_begin l"
  by (simp add: cursor_after_def)

lemma PushFront_throw:
  assumes "is_list s l avs" and "next_fault s = Some e"
  shows "PushFront l v s = (Throw e, s\<lparr>faults := tl (faults s)\<rparr>)"
  using InsertAfter_throw [of s l "[]" avs e v] assms
  by (simp add: PushFront_as_InsertAfter)

lemma PushFront_ok:
  assumes "is_list s l avs" and "next_fault s = None"
  shows "\<exists>s'. PushFront l v s = (Ok (), s') \<and>
           is_list s' l ((length (heap s), v) # avs) \<and>
           (\<forall>a. a < length (heap s) \<longrightarrow> cell s' a = cell s a) \<and>
           (\<forall>k. k \<noteq> l \<longrightarrow> obj s' k = obj s k) \<and>
           length (heap s') = Suc (length (heap s)) \<and> length (objs s') = length (objs s) \<and>
           faults s' = tl (faults s)"
  using InsertAfter_ok [of s l "[]" avs v] assms
  by (auto simp: PushFront_as_InsertAfter before_begin_def)

text \<open>
  C5: \<open>InsertAfter(before_begin(), v)\<close> and \<open>PushFront(v)\<close> leave the same store behind
  and end the same way (both return, both throw the same exception, or both stop), so
  the element sequence and the size read off the list afterwards are the same.
\<close>

theorem InsertAfter_before_begin_PushFront:
  "snd (InsertAfter l (before_begin l) v s) = snd (PushFront l v s) \<and>
   fst (PushFront l v s) =
     (case fst (InsertAfter l (before_begin l) v s) of
        Ok it \<Rightarrow> Ok () | Throw e \<Rightarrow> Throw e | Abort \<Rightarrow> Abort) \<and>
   elements (snd (InsertAfter l (before_begin l) v s)) l = elements (snd (PushFront l v s)) l \<and>
   GetSize (snd (InsertAfter l (before_begin l) v s)) l = GetSize (snd (PushFront l v s)) l"
proof -
  obtain r s' where ia: "InsertAfter l (before_begin l) v s = (r, s')"
    by (cases "InsertAfter l (before_begin l) v s")
  then show ?thesis
    by (cases r) (simp_all add: PushFront_as_InsertAfter)
qed

lemma is_list_ex_list_123: "is_list ex_list_123 0 [(0, 1), (1, 2), (2, 3)]"
  by (simp add: is_list_def ex_list_123_def obj_def cell_def)

theorem InsertAfter_before_begin_PushFront_witness:
  "elements (snd (PushFront 0 0 ex_list_123)) 0 = Some (Ok [0, 1, 2, 3]) \<and>
   elements (snd (InsertAfter 0 (before_begin 0) 0 ex_list_123)) 0 = Some (Ok [0, 1, 2, 3]) \<and>
   GetSize (snd (InsertAfter 0 (before_begin 0) 0 ex_list_123)) 0 = Some 4"
proof -
  have nf: "next_fault ex_list_123 = None" by (simp add: next_fault_def ex_list_123_def)
  from PushFront_ok [OF is_list_ex_list_123 nf, of 0]
  obtain s' where s': "PushFront 0 0 ex_list_123 = (Ok (), s')"
    "is_list s' 0 ((length (heap ex_list_123), 0) # [(0, 1), (1, 2), (2, 3)])"
    by blast
  have "elements (snd (PushFront 0 0 ex_list_123)) 0 = Some (Ok [0, 1, 2, 3])"
    "GetSize (snd (PushFront 0 0 ex_list_123)) 0 = Some 4"
    using elements_is_list [OF s'(2)] GetSize_is_list [OF s'(2)] by (simp_all add: s'(1))
  then show ?thesis
    using InsertAfter_before_begin_PushFront [of 0 0 ex_list_123] by simp
qed

text \<open>
  C6: on a well-formed list, \<open>PushFront(v)\<close> followed by \<open>PopFront()\<close> gives back the
  element sequence and the size the list had, every node and every list object of the
  store being what it was; and when \<open>PushFront\<close> throws instead, nothing has changed
  either.
\<close>

theorem PushFront_PopFront_unchanged:
  assumes "is_list s l avs"
  shows "elements s l = Some (Ok (map snd avs)) \<and> GetSize s l = Some (length avs) \<and>
    (case PushFront l v s of
       (Ok u, s1) \<Rightarrow>
         (case PopFront l s1 of
            (Ok u', s2) \<Rightarrow>
              elements s2 l = elements s l \<and> GetSize s2 l = GetSize s l \<and>
              is_list s2 l avs \<and> cell s2 = cell s \<and> obj s2 = obj s
          | (Throw e, s2) \<Rightarrow> False
          | (Abort, s2) \<Rightarrow> False)
     | (Throw e, s1) \<Rightarrow>
         elements s1 l = elements s l \<and> GetSize s1 l = GetSize s l \<and>
         is_list s1 l avs \<and> cell s1 = cell s \<and> obj s1 = obj s
     | (Abort, s1) \<Rightarrow> False)"
proof -
  have obs: "elements s l = Some (Ok (map snd avs))" "GetSize s l = Some (length avs)"
    using assms by (simp_all add: elements_is_list GetSize_is_list)
  have same: "elements s' l = elements s l \<and> GetSize s' l = GetSize s l \<and>
      is_list s' l avs \<and> cell s' = cell s \<and> obj s' = obj s"
    if c: "cell s' = cell s" and o: "obj s' = obj s" for s'
  proof -
    have "is_list s' l avs" using assms by (simp add: is_list_iff c o)
    then show ?thesis using obs c o by (simp add: elements_is_list GetSize_is_list)
  qed
  have "case PushFront l v s of
       (Ok u, s1) \<Rightarrow>
         (case PopFront l s1 of
            (Ok u', s2) \<Rightarrow>
              elements s2 l = elements s l \<and> GetSize s2 l = GetSize s l \<and>
              is_list s2 l avs \<and> cell s2 = cell s \<and> obj s2 = obj s
          | (Throw e, s2) \<Rightarrow> False
          | (Abort, s2) \<Rightarrow> False)
     | (Throw e, s1) \<Rightarrow>
         elements s1 l = elements s l \<and> GetSize s1 l = GetSize s l \<and>
         is_list s1 l avs \<and> cell s1 = cell s \<and> obj s1 = obj s
     | (Abort, s1) \<Rightarrow> False"
  proof (cases "next_fault s")
    case (Some e)
    have "cell (s\<lparr>faults := tl (faults s)\<rparr>) = cell s" "obj (s\<lparr>faults := tl (faults s)\<rparr>) = obj s"
      by simp_all
    then show ?thesis
      using same [of "s\<lparr>faults := tl (faults s)\<rparr>"]
      by (simp add: PushFront_throw [OF assms Some])
  next
    case None
    from PushFront_ok [OF assms None, of v] obtain s1 where
      pf: "PushFront l v s = (Ok (), s1)"
      and l1: "is_list s1 l ((length (heap s), v) # avs)"
      and c1: "\<forall>a. a < length (heap s) \<longrightarrow> cell s1 a = cell s a"
      and o1: "\<forall>k. k \<noteq> l \<longrightarrow> obj s1 k = obj s k"
      and h1: "length (heap s1) = Suc (length (heap s))"
      by blast
    from PopFront_spec [OF l1] obtain s2 where
      pp: "PopFront l s1 = (Ok (), s2)"
      and l2: "is_list s2 l avs"
      and c2: "cell s2 = (cell s1)(length (heap s) := None)"
      and o2: "\<forall>k. k \<noteq> l \<longrightarrow> obj s2 k = obj s1 k"
      by blast
    have "cell s2 a = cell s a" for a
    proof (cases "a < length (heap s)")
      case True
      then show ?thesis using c1 c2 by simp
    next
      case False
      then have "cell s1 a = None" if "a \<noteq> length (heap s)"
        using that h1 by (intro cell_beyond) simp
      then show ?thesis using False c2 by (auto simp: cell_beyond)
    qed
    then have c: "cell s2 = cell s" by (rule ext)
    have "obj s2 k = obj s k" for k
      using o1 o2 is_list_obj_eq [OF assms l2] by (cases "k = l") simp_all
    then have o: "obj s2 = obj s" by (rule ext)
    show ?thesis using same [OF c o] by (simp add: pf pp)
  qed
  with obs show ?thesis by simp
qed

theorem PushFront_PopFront_unchanged_witness:
  "is_list ex_list_123 0 [(0, 1), (1, 2), (2, 3)] \<and>
   elements ex_list_123 0 = Some (Ok [1, 2, 3]) \<and>
   (\<exists>s1 s2. PushFront 0 7 ex_list_123 = (Ok (), s1) \<and> PopFront 0 s1 = (Ok (), s2) \<and>
     elements s1 0 = Some (Ok [7, 1, 2, 3]) \<and>
     elements s2 0 = Some (Ok [1, 2, 3]) \<and> GetSize s2 0 = Some 3)"
proof -
  have nf: "next_fault ex_list_123 = None" by (simp add: next_fault_def ex_list_123_def)
  from PushFront_ok [OF is_list_ex_list_123 nf, of 7]
  obtain s1 where s1: "PushFront 0 7 ex_list_123 = (Ok (), s1)"
    "is_list s1 0 ((length (heap ex_list_123), 7) # [(0, 1), (1, 2), (2, 3)])"
    by blast
  have e1: "elements s1 0 = Some (Ok [7, 1, 2, 3])"
    using elements_is_list [OF s1(2)] by simp
  from PushFront_PopFront_unchanged [OF is_list_ex_list_123, of 7]
  show ?thesis
    using is_list_ex_list_123 e1
    by (auto simp: s1(1) split: prod.splits result.splits)
qed

lemma it_inc_cursor_after:
  assumes "is_list s l (pre @ post)"
  shows "it_inc s (cursor_after l pre) = Ok (first_of post)"
proof -
  from assms obtain L q where L: "obj s l = Some L"
    and sg: "seg (cell s) (m_head_next L) pre q" and chq: "chain (cell s) q post"
    by (auto simp: is_list_iff chain_split)
  have q: "q = first_of post" using chq by (rule chain_first_of)
  show ?thesis
  proof (cases pre rule: rev_cases)
    case Nil
    then show ?thesis using L sg q by (simp add: it_inc_def before_begin_def)
  next
    case (snoc pre' x)
    obtain pa pv where x: "x = (pa, pv)" by (cases x)
    from sg obtain m where "cell s pa = Some m" "next_node m = q"
      by (auto simp: snoc x seg_snoc)
    then show ?thesis using q by (simp add: snoc x cursor_after_def it_inc_def)
  qed
qed

text \<open>
  C7: in a well-formed list, let \<open>pos\<close> reference the sentinel (\<open>i = 0\<close>) or the
  \<open>i\<close>-th node, with a real node after it. Then \<open>EraseAfter(pos)\<close> returns (it neither
  throws nor stops), that successor node is released and gone from the sequence, all
  other elements stay in order, the size is one less, and the cursor returned is the
  one that now follows \<open>pos\<close>: to the next element, or the end cursor.
\<close>

theorem EraseAfter_removes_successor:
  assumes "is_list s l avs" and "i < length avs"
  shows "it_inc s (cursor_after l (take i avs)) = Ok (Some (Cell (fst (avs ! i)))) \<and>
    (\<exists>s'. EraseAfter l (cursor_after l (take i avs)) s = (Ok (first_of (drop (Suc i) avs)), s') \<and>
       is_list s' l (take i avs @ drop (Suc i) avs) \<and>
       elements s' l = Some (Ok (take i (map snd avs) @ drop (Suc i) (map snd avs))) \<and>
       GetSize s' l = Some (length avs - 1) \<and>
       it_inc s' (cursor_after l (take i avs)) = Ok (first_of (drop (Suc i) avs)) \<and>
       cell s' (fst (avs ! i)) = None \<and>
       (\<forall>a. a \<noteq> fst (avs ! i) \<longrightarrow> cursor_after l (take i avs) \<noteq> Some (Cell a) \<longrightarrow>
            cell s' a = cell s a) \<and>
       (\<forall>k. k \<noteq> l \<longrightarrow> obj s' k = obj s k))"
proof -
  obtain d v where dv: "avs ! i = (d, v)" by (cases "avs ! i")
  have split: "avs = take i avs @ (d, v) # drop (Suc i) avs"
    using id_take_nth_drop [OF assms(2)] dv by simp
  have l0: "is_list s l (take i avs @ (d, v) # drop (Suc i) avs)"
    using assms(1) split by simp
  from EraseAfter_spec [OF l0] obtain s' where
    run: "EraseAfter l (cursor_after l (take i avs)) s = (Ok (first_of (drop (Suc i) avs)), s')"
    and l': "is_list s' l (take i avs @ drop (Suc i) avs)"
    and rest: "cell s' d = None"
      "\<forall>a. a \<noteq> d \<longrightarrow> cursor_after l (take i avs) \<noteq> Some (Cell a) \<longrightarrow> cell s' a = cell s a"
      "\<forall>k. k \<noteq> l \<longrightarrow> obj s' k = obj s k"
    by blast
  have "it_inc s (cursor_after l (take i avs)) = Ok (first_of ((d, v) # drop (Suc i) avs))"
    using l0 by (rule it_inc_cursor_after)
  then have before: "it_inc s (cursor_after l (take i avs)) = Ok (Some (Cell (fst (avs ! i))))"
    by (simp add: first_of_def dv)
  have len: "length (take i avs @ drop (Suc i) avs) = length avs - 1"
    using assms(2) by simp
  have "elements s' l = Some (Ok (take i (map snd avs) @ drop (Suc i) (map snd avs)))"
    using elements_is_list [OF l'] by (simp add: take_map drop_map)
  moreover have "GetSize s' l = Some (length avs - 1)"
    using GetSize_is_list [OF l'] len by simp
  moreover have "it_inc s' (cursor_after l (take i avs)) = Ok (first_of (drop (Suc i) avs))"
    using l' by (rule it_inc_cursor_after)
  ultimately show ?thesis using before run l' rest by (simp add: dv)
qed

theorem EraseAfter_removes_successor_witness:
  "is_list ex_list_123 0 [(0, 1), (1, 2), (2, 3)] \<and> (1::nat) < length [(0::nat, 1::int), (1, 2), (2, 3)] \<and>
   (\<exists>s'. EraseAfter 0 (Some (Cell 0)) ex_list_123 = (Ok (Some (Cell 2)), s') \<and>
      elements s' 0 = Some (Ok [1, 3]) \<and> GetSize s' 0 = Some 2 \<and> cell s' 1 = None)"
proof -
  have i: "(1::nat) < length [(0::nat, 1::int), (1, 2), (2, 3)]" by simp
  from EraseAfter_removes_successor [OF is_list_ex_list_123 i]
  show ?thesis
    using is_list_ex_list_123 by (auto simp: cursor_after_def first_of_def)
qed

section \<open>Relational operators on well-formed lists\<close>

lemma std_equal_chain:
  "chain (cell s) p avs \<Longrightarrow> chain (cell s) q bvs \<Longrightarrow> length avs = length bvs \<Longrightarrow>
   std_equal eq s p cend q = Some (Ok (list_all2 eq (map snd avs) (map snd bvs)))"
proof (induction avs arbitrary: p q bvs)
  case Nil
  then show ?case by (subst std_equal.simps) (simp add: it_ne_def cend_def)
next
  case (Cons x avs)
  obtain a v where x: "x = (a, v)" by (cases x)
  from Cons.prems(3) obtain b w bvs' where bvs: "bvs = (b, w) # bvs'"
    by (cases bvs) auto
  from Cons.prems(1) obtain n where p: "p = Some (Cell a)" and n: "cell s a = Some n"
    and nv: "node_value n = v" and ch1: "chain (cell s) (next_node n) avs"
    by (auto simp: x)
  from Cons.prems(2) obtain m where q: "q = Some (Cell b)" and m: "cell s b = Some m"
    and mw: "node_value m = w" and ch2: "chain (cell s) (next_node m) bvs'"
    by (auto simp: bvs)
  show ?case
  proof (cases "eq v w")
    case False
    then show ?thesis
      by (subst std_equal.simps)
        (simp add: p q n m nv mw x bvs it_ne_def cend_def it_deref_def)
  next
    case True
    have "std_equal eq s p cend q = std_equal eq s (next_node n) cend (next_node m)"
      using True
      by (subst std_equal.simps)
        (simp add: p q n m nv mw it_ne_def cend_def it_deref_def it_inc_def)
    also have "\<dots> = Some (Ok (list_all2 eq (map snd avs) (map snd bvs')))"
      using ch1 ch2 Cons.prems(3) by (intro Cons.IH) (simp_all add: bvs)
    finally show ?thesis using True by (simp add: x bvs)
  qed
qed

lemma op_eq_is_list:
  assumes "is_list s l1 avs" and "is_list s l2 bvs"
  shows "op_eq eq s l1 l2 =
    Some (Ok (length avs = length bvs \<and> list_all2 eq (map snd avs) (map snd bvs)))"
proof -
  from assms obtain L1 L2 where L1: "obj s l1 = Some L1" "chain (cell s) (m_head_next L1) avs"
    "m_size L1 = length avs"
    and L2: "obj s l2 = Some L2" "chain (cell s) (m_head_next L2) bvs" "m_size L2 = length bvs"
    unfolding is_list_iff by blast
  show ?thesis
  proof (cases "length avs = length bvs")
    case True
    then show ?thesis
      using L1 L2 std_equal_chain [OF L1(2) L2(2) True, of eq]
      by (simp add: op_eq_def GetSize_def cbegin_def)
  next
    case False
    then show ?thesis using L1 L2 by (simp add: op_eq_def GetSize_def)
  qed
qed

lemma std_lexicographical_compare_chain:
  "chain (cell s) p avs \<Longrightarrow> chain (cell s) q bvs \<Longrightarrow>
   std_lexicographical_compare lt s p cend q cend =
     Some (Ok (ord.lexordp lt (map snd avs) (map snd bvs)))"
proof (induction avs arbitrary: p q bvs)
  case Nil
  then show ?case
    by (subst std_lexicographical_compare.simps)
      (cases bvs; auto simp: it_ne_def it_eq_def cend_def ord.lexordp_simps)
next
  case (Cons x avs)
  obtain a v where x: "x = (a, v)" by (cases x)
  from Cons.prems(1) obtain n where p: "p = Some (Cell a)" and n: "cell s a = Some n"
    and nv: "node_value n = v" and ch1: "chain (cell s) (next_node n) avs"
    by (auto simp: x)
  show ?case
  proof (cases bvs)
    case Nil
    then show ?thesis using Cons.prems(2)
      by (subst std_lexicographical_compare.simps)
        (simp add: p it_ne_def it_eq_def cend_def ord.lexordp_simps)
  next
    case (Cons y bvs')
    obtain b w where y: "y = (b, w)" by (cases y)
    from Cons.prems(2) obtain m where q: "q = Some (Cell b)" and m: "cell s b = Some m"
      and mw: "node_value m = w" and ch2: "chain (cell s) (next_node m) bvs'"
      by (auto simp: Cons y)
    show ?thesis
    proof (cases "lt v w \<or> lt w v")
      case True
      then show ?thesis
        by (subst std_lexicographical_compare.simps)
          (auto simp: p q n m nv mw x Cons y it_ne_def cend_def it_deref_def ord.lexordp_simps)
    next
      case False
      have "std_lexicographical_compare lt s p cend q cend =
            std_lexicographical_compare lt s (next_node n) cend (next_node m) cend"
        using False
        by (subst std_lexicographical_compare.simps)
          (simp add: p q n m nv mw it_ne_def cend_def it_deref_def it_inc_def)
      also have "\<dots> = Some (Ok (ord.lexordp lt (map snd avs) (map snd bvs')))"
        using ch1 ch2 by (rule Cons.IH)
      finally show ?thesis using False by (simp add: x Cons y ord.lexordp_simps)
    qed
  qed
qed

lemma op_lt_is_list:
  assumes "is_list s l1 avs" and "is_list s l2 bvs"
  shows "op_lt lt s l1 l2 = Some (Ok (ord.lexordp lt (map snd avs) (map snd bvs)))"
proof -
  from assms obtain L1 L2 where L1: "obj s l1 = Some L1" "chain (cell s) (m_head_next L1) avs"
    and L2: "obj s l2 = Some L2" "chain (cell s) (m_head_next L2) bvs"
    unfolding is_list_iff by blast
  show ?thesis
    using L1 L2 std_lexicographical_compare_chain [OF L1(2) L2(2), of lt]
    by (simp add: op_lt_def cbegin_def)
qed

lemma lexordp_prefix: "zs \<noteq> [] \<Longrightarrow> ord.lexordp lt xs (xs @ zs)"
  by (induction xs) (auto simp: ord.lexordp_simps)

lemma le_iff_lt_or_eq_lists:
  fixes xs ys :: "('a::linorder) list"
  shows "(\<not> ord.lexordp (<) ys xs) = (ord.lexordp (<) xs ys \<or> xs = ys)"
proof (induction xs arbitrary: ys)
  case Nil
  then show ?case by (cases ys) (auto simp: ord.lexordp_simps)
next
  case (Cons x xs)
  then show ?case by (cases ys) (auto simp: ord.lexordp_simps)
qed

text \<open>
  C3: for two well-formed lists, \<open>operator==\<close> returns true exactly when the sizes are
  the same and the elements at equal positions compare equal under the element type's
  \<open>==\<close>, and \<open>operator!=\<close> returns the negation.
\<close>

theorem op_eq_same_size_and_elements:
  assumes "is_list s l1 avs" and "is_list s l2 bvs"
  shows "GetSize s l1 = Some (length avs) \<and> GetSize s l2 = Some (length bvs) \<and>
    elements s l1 = Some (Ok (map snd avs)) \<and> elements s l2 = Some (Ok (map snd bvs)) \<and>
    op_eq eq s l1 l2 =
      Some (Ok (length avs = length bvs \<and>
                (\<forall>i<length avs. eq (map snd avs ! i) (map snd bvs ! i)))) \<and>
    op_ne eq s l1 l2 =
      Some (Ok (\<not> (length avs = length bvs \<and>
                   (\<forall>i<length avs. eq (map snd avs ! i) (map snd bvs ! i)))))"
proof -
  have "(length avs = length bvs \<and> list_all2 eq (map snd avs) (map snd bvs)) =
        (length avs = length bvs \<and> (\<forall>i<length avs. eq (map snd avs ! i) (map snd bvs ! i)))"
    by (auto simp: list_all2_conv_all_nth)
  then have "op_eq eq s l1 l2 =
      Some (Ok (length avs = length bvs \<and>
                (\<forall>i<length avs. eq (map snd avs ! i) (map snd bvs ! i))))"
    using op_eq_is_list [OF assms, of eq] by simp
  then show ?thesis
    using assms by (simp add: op_ne_def not_result_def GetSize_is_list elements_is_list)
qed

lemma is_list_ex_123: "is_list ex_lists_123_124 0 [(0, 1), (1, 2), (2, 3)]"
  by (simp add: is_list_def ex_lists_123_124_def obj_def cell_def)

lemma is_list_ex_124: "is_list ex_lists_123_124 (Suc 0) [(3, 1), (4, 2), (5, 4)]"
  by (simp add: is_list_def ex_lists_123_124_def obj_def cell_def)

theorem op_eq_same_size_and_elements_witness:
  "is_list ex_lists_123_124 0 [(0, 1), (1, 2), (2, 3)] \<and>
   is_list ex_lists_123_124 (Suc 0) [(3, 1), (4, 2), (5, 4)] \<and>
   op_eq (=) ex_lists_123_124 0 (Suc 0) = Some (Ok False) \<and>
   op_ne (=) ex_lists_123_124 0 (Suc 0) = Some (Ok True) \<and>
   op_eq (=) ex_lists_123_124 0 0 = Some (Ok True) \<and>
   op_ne (=) ex_lists_123_124 0 0 = Some (Ok False)"
proof -
  have a: "\<not> (\<forall>i<length [(0::nat, 1::int), (1, 2), (2, 3)].
             map snd [(0::nat, 1::int), (1, 2), (2, 3)] ! i =
             map snd [(3::nat, 1::int), (4, 2), (5, 4)] ! i)"
    by (auto intro!: exI [of _ 2])
  show ?thesis
    using op_eq_same_size_and_elements [OF is_list_ex_123 is_list_ex_124, of "(=)"]
      op_eq_same_size_and_elements [OF is_list_ex_123 is_list_ex_123, of "(=)"]
      is_list_ex_123 is_list_ex_124 a
    by simp
qed

text \<open>
  C4: for two well-formed lists, \<open>operator<\<close> returns the lexicographic comparison of
  the element sequences under the element type's \<open><\<close> (\<open>ord.lexordp lt\<close>, in which two
  elements neither of which is less than the other count as equivalent);
  \<open>a <= b\<close> is \<open>!(b < a)\<close>, \<open>a > b\<close> is \<open>b < a\<close> and \<open>a >= b\<close> is \<open>!(a < b)\<close>. In
  particular the empty list is less than a non-empty one and a proper prefix is less
  than its extension.
\<close>

theorem op_lt_lexicographic:
  assumes "is_list s l1 avs" and "is_list s l2 bvs"
  shows "elements s l1 = Some (Ok (map snd avs)) \<and> elements s l2 = Some (Ok (map snd bvs)) \<and>
    op_lt lt s l1 l2 = Some (Ok (ord.lexordp lt (map snd avs) (map snd bvs))) \<and>
    op_le lt s l1 l2 = Some (Ok (\<not> ord.lexordp lt (map snd bvs) (map snd avs))) \<and>
    op_gt lt s l1 l2 = Some (Ok (ord.lexordp lt (map snd bvs) (map snd avs))) \<and>
    op_ge lt s l1 l2 = Some (Ok (\<not> ord.lexordp lt (map snd avs) (map snd bvs))) \<and>
    (avs = [] \<and> bvs \<noteq> [] \<longrightarrow> op_lt lt s l1 l2 = Some (Ok True)) \<and>
    (\<forall>zs. zs \<noteq> [] \<and> map snd bvs = map snd avs @ zs \<longrightarrow> op_lt lt s l1 l2 = Some (Ok True))"
proof -
  have lt: "op_lt lt s l1 l2 = Some (Ok (ord.lexordp lt (map snd avs) (map snd bvs)))"
    using assms by (rule op_lt_is_list)
  have gt: "op_lt lt s l2 l1 = Some (Ok (ord.lexordp lt (map snd bvs) (map snd avs)))"
    using assms(2) assms(1) by (rule op_lt_is_list)
  have "avs = [] \<and> bvs \<noteq> [] \<longrightarrow> op_lt lt s l1 l2 = Some (Ok True)"
    by (simp add: lt ord.lexordp_simps)
  moreover have "\<forall>zs. zs \<noteq> [] \<and> map snd bvs = map snd avs @ zs \<longrightarrow>
      op_lt lt s l1 l2 = Some (Ok True)"
    by (simp add: lt lexordp_prefix)
  ultimately show ?thesis
    using assms lt gt
    by (simp add: op_le_def op_gt_def op_ge_def not_result_def elements_is_list)
qed

theorem op_lt_lexicographic_witness:
  "is_list ex_lists_123_124 0 [(0, 1), (1, 2), (2, 3)] \<and>
   is_list ex_lists_123_124 (Suc 0) [(3, 1), (4, 2), (5, 4)] \<and>
   op_lt (<) ex_lists_123_124 0 (Suc 0) = Some (Ok True) \<and>
   op_gt (<) ex_lists_123_124 (Suc 0) 0 = Some (Ok True) \<and>
   op_le (<) ex_lists_123_124 0 (Suc 0) = Some (Ok True) \<and>
   op_ge (<) ex_lists_123_124 0 (Suc 0) = Some (Ok False)"
  using op_lt_lexicographic [OF is_list_ex_123 is_list_ex_124, of "(<)"]
    op_lt_lexicographic [OF is_list_ex_124 is_list_ex_123, of "(<)"]
    is_list_ex_123 is_list_ex_124
  by (simp add: ord.lexordp_simps)

text \<open>
  C10: when the element type is linearly ordered by its \<open><\<close> (with \<open>==\<close> the equality
  of that order), \<open>operator<=\<close>, computed as \<open>!(rhs < lhs)\<close>, returns true exactly when
  \<open>operator<\<close> or \<open>operator==\<close> does.
\<close>

theorem op_le_iff_op_lt_or_op_eq:
  fixes s :: "('a::linorder) state"
  assumes "is_list s l1 avs" and "is_list s l2 bvs"
  shows "\<exists>le lt eq. op_le (<) s l1 l2 = Some (Ok le) \<and> op_lt (<) s l1 l2 = Some (Ok lt) \<and>
           op_eq (=) s l1 l2 = Some (Ok eq) \<and> le = (lt \<or> eq)"
proof -
  have lt: "op_lt (<) s l1 l2 = Some (Ok (ord.lexordp (<) (map snd avs) (map snd bvs)))"
    using assms by (rule op_lt_is_list)
  have gt: "op_lt (<) s l2 l1 = Some (Ok (ord.lexordp (<) (map snd bvs) (map snd avs)))"
    using assms(2) assms(1) by (rule op_lt_is_list)
  have "(length avs = length bvs \<and> list_all2 (=) (map snd avs) (map snd bvs)) =
        (map snd avs = map snd bvs)"
    by (auto simp: list_all2_eq [symmetric] dest: list_all2_lengthD map_eq_imp_length_eq)
  then have eq: "op_eq (=) s l1 l2 = Some (Ok (map snd avs = map snd bvs))"
    using op_eq_is_list [OF assms, of "(=)"] by simp
  show ?thesis
    using le_iff_lt_or_eq_lists [of "map snd bvs" "map snd avs"]
    by (simp add: lt gt eq op_le_def not_result_def)
qed

theorem op_le_iff_op_lt_or_op_eq_witness:
  "is_list ex_lists_123_124 0 [(0, 1), (1, 2), (2, 3)] \<and>
   is_list ex_lists_123_124 (Suc 0) [(3, 1), (4, 2), (5, 4)] \<and>
   (\<exists>le lt eq. op_le (<) ex_lists_123_124 0 (Suc 0) = Some (Ok le) \<and>
      op_lt (<) ex_lists_123_124 0 (Suc 0) = Some (Ok lt) \<and>
      op_eq (=) ex_lists_123_124 0 (Suc 0) = Some (Ok eq) \<and> le = (lt \<or> eq))"
  using op_le_iff_op_lt_or_op_eq [OF is_list_ex_123 is_list_ex_124]
    is_list_ex_123 is_list_ex_124
  by simp

section \<open>swap\<close>

lemma swap_spec:
  assumes "obj s a = Some A" and "obj s b = Some B"
  shows "\<exists>s'. swap a b s = (Ok (), s') \<and> obj s' = (obj s)(a \<mapsto> B, b \<mapsto> A) \<and>
           cell s' = cell s \<and> heap s' = heap s \<and> length (objs s') = length (objs s) \<and>
           faults s' = faults s"
proof (cases "a = b")
  case True
  with assms have AB: "B = A" by simp
  have "set_obj a A s = s"
    using assms(1) by (simp add: set_obj_def obj_def list_update_same_conv split: if_splits)
  then show ?thesis
    using assms True AB by (auto simp: swap_def fun_upd_idem)
next
  case False
  define s1 where "s1 = set_obj b (B\<lparr>m_size := m_size A\<rparr>) (set_obj a (A\<lparr>m_size := m_size B\<rparr>) s)"
  have o0: "obj (set_obj a (A\<lparr>m_size := m_size B\<rparr>) s) = (obj s)(a \<mapsto> A\<lparr>m_size := m_size B\<rparr>)"
    using assms(1) by simp
  have o1: "obj s1 = (obj s)(a \<mapsto> A\<lparr>m_size := m_size B\<rparr>, b \<mapsto> B\<lparr>m_size := m_size A\<rparr>)"
    unfolding s1_def using o0 assms(2) False
    by (subst obj_set_obj_live [where ?L0.0 = B]) simp_all
  define s2 where "s2 = set_obj a (A\<lparr>m_size := m_size B, m_head_next := m_head_next B\<rparr>) s1"
  define s' where "s' = set_obj b (B\<lparr>m_size := m_size A, m_head_next := m_head_next A\<rparr>) s2"
  have o2: "obj s2 = (obj s1)(a \<mapsto> A\<lparr>m_size := m_size B, m_head_next := m_head_next B\<rparr>)"
    unfolding s2_def using o1 False
    by (subst obj_set_obj_live [where ?L0.0 = "A\<lparr>m_size := m_size B\<rparr>"]) simp_all
  have o': "obj s' = (obj s2)(b \<mapsto> B\<lparr>m_size := m_size A, m_head_next := m_head_next A\<rparr>)"
    unfolding s'_def using o2 o1 False
    by (subst obj_set_obj_live [where ?L0.0 = "B\<lparr>m_size := m_size A\<rparr>"]) simp_all
  have run: "swap a b s = (Ok (), s')"
    using assms False o1
    by (simp add: swap_def s1_def [symmetric] s'_def s2_def)
  have "obj s' = (obj s)(a \<mapsto> B, b \<mapsto> A)"
    using False by (rule_tac ext) (simp add: o' o2 o1)
  moreover have "cell s' = cell s" "heap s' = heap s" "length (objs s') = length (objs s)"
    "faults s' = faults s"
    unfolding s'_def s2_def s1_def by simp_all
  ultimately show ?thesis using run by blast
qed

lemma is_list_cong:
  "cell s' = cell s \<Longrightarrow> obj s' l = obj s k \<Longrightarrow> is_list s' l avs = is_list s k avs"
  by (simp add: is_list_iff)

lemma traverse_from_node:
  assumes "is_list s l avs" and "x \<in> fst ` set avs" and "cell s' = cell s"
  shows "traverse s' (Some (Cell x)) [] = traverse s (Some (Cell x)) [] \<and>
         traverse s (Some (Cell x)) [] \<noteq> None"
proof -
  from assms(2) obtain v where "(x, v) \<in> set avs" by auto
  then obtain pre post where avs: "avs = pre @ (x, v) # post"
    by (auto simp: in_set_conv_decomp)
  from assms(1) obtain L :: SingleLinkedList
    where "chain (cell s) (m_head_next L) (pre @ (x, v) # post)"
    by (auto simp: is_list_iff avs)
  then obtain q where q: "chain (cell s) q ((x, v) # post)"
    unfolding chain_split by blast
  then have q': "chain (cell s) (Some (Cell x)) ((x, v) # post)" by simp
  then have "chain (cell s') (Some (Cell x)) ((x, v) # post)" using assms(3) by simp
  then show ?thesis using q' by (simp only: traverse_chain) simp
qed

text \<open>
  C2, as the code has it: \<open>swap\<close> exchanges the forward link of the two sentinels and
  the two sizes, and no node. So the two lists exchange element sequence and size, and a
  cursor to a real node of one list refers into the other list afterwards, the walk from
  it being what it was. The sentinels stay where they are: \<open>before_begin()\<close> of a list
  still references that list's own sentinel, now followed by the other list's former
  first node, and for two different lists it does not refer into the other list.
\<close>

theorem swap_exchanges_chains:
  assumes "is_list s a avs" and "is_list s b bvs"
  shows "\<exists>s'. swap a b s = (Ok (), s') \<and>
    is_list s' a bvs \<and> is_list s' b avs \<and>
    elements s' a = elements s b \<and> elements s' b = elements s a \<and>
    GetSize s' a = GetSize s b \<and> GetSize s' b = GetSize s a \<and>
    cell s' = cell s \<and>
    (\<forall>x. refers_into s a (Some (Cell x)) \<longrightarrow>
         refers_into s' b (Some (Cell x)) \<and>
         traverse s' (Some (Cell x)) [] = traverse s (Some (Cell x)) []) \<and>
    (\<forall>x. refers_into s b (Some (Cell x)) \<longrightarrow>
         refers_into s' a (Some (Cell x)) \<and>
         traverse s' (Some (Cell x)) [] = traverse s (Some (Cell x)) []) \<and>
    refers_into s' a (before_begin a) \<and> refers_into s' b (before_begin b) \<and>
    it_inc s' (before_begin a) = it_inc s (before_begin b) \<and>
    it_inc s' (before_begin b) = it_inc s (before_begin a) \<and>
    (a \<noteq> b \<longrightarrow> \<not> refers_into s' b (before_begin a) \<and> \<not> refers_into s' a (before_begin b))"
proof -
  from assms obtain A B where A: "obj s a = Some A" and B: "obj s b = Some B"
    by (auto simp: is_list_iff)
  from swap_spec [OF A B] obtain s' where run: "swap a b s = (Ok (), s')"
    and o: "obj s' = (obj s)(a \<mapsto> B, b \<mapsto> A)" and c: "cell s' = cell s"
    by blast
  have oa: "obj s' a = obj s b" and ob: "obj s' b = obj s a"
    using A B by (auto simp: o)
  have la: "is_list s' a bvs" using assms(2) is_list_cong [OF c oa] by simp
  have lb: "is_list s' b avs" using assms(1) is_list_cong [OF c ob] by simp
  have el: "elements s' a = elements s b" "elements s' b = elements s a"
    using assms la lb by (simp_all add: elements_is_list)
  have sz: "GetSize s' a = GetSize s b" "GetSize s' b = GetSize s a"
    by (simp_all add: GetSize_def oa ob)
  have ca: "\<forall>x. refers_into s a (Some (Cell x)) \<longrightarrow>
         refers_into s' b (Some (Cell x)) \<and>
         traverse s' (Some (Cell x)) [] = traverse s (Some (Cell x)) []"
    using traverse_from_node [OF assms(1) _ c]
    by (simp add: refers_into_is_list [OF assms(1)] refers_into_is_list [OF lb])
  have cb: "\<forall>x. refers_into s b (Some (Cell x)) \<longrightarrow>
         refers_into s' a (Some (Cell x)) \<and>
         traverse s' (Some (Cell x)) [] = traverse s (Some (Cell x)) []"
    using traverse_from_node [OF assms(2) _ c]
    by (simp add: refers_into_is_list [OF assms(2)] refers_into_is_list [OF la])
  have bb: "refers_into s' a (before_begin a)" "refers_into s' b (before_begin b)"
    "a \<noteq> b \<longrightarrow> \<not> refers_into s' b (before_begin a) \<and> \<not> refers_into s' a (before_begin b)"
    by (auto simp: refers_into_is_list [OF la] refers_into_is_list [OF lb] before_begin_def)
  have inc: "it_inc s' (before_begin a) = it_inc s (before_begin b)"
    "it_inc s' (before_begin b) = it_inc s (before_begin a)"
    by (simp_all add: it_inc_def before_begin_def oa ob)
  show ?thesis
    using run la lb el sz c ca cb bb inc by (intro exI [of _ s']) simp
qed

lemma is_list_ex_swap_0: "is_list ex_lists_123_98 0 [(0, 1), (1, 2), (2, 3)]"
  by (simp add: is_list_def ex_lists_123_98_def obj_def cell_def)

lemma is_list_ex_swap_1: "is_list ex_lists_123_98 (Suc 0) [(3, 9), (4, 8)]"
  by (simp add: is_list_def ex_lists_123_98_def obj_def cell_def)

theorem swap_exchanges_chains_witness:
  "is_list ex_lists_123_98 0 [(0, 1), (1, 2), (2, 3)] \<and>
   is_list ex_lists_123_98 (Suc 0) [(3, 9), (4, 8)] \<and>
   (\<exists>s'. swap 0 (Suc 0) ex_lists_123_98 = (Ok (), s') \<and>
      elements s' 0 = Some (Ok [9, 8]) \<and> elements s' (Suc 0) = Some (Ok [1, 2, 3]) \<and>
      GetSize s' 0 = Some 2 \<and> GetSize s' (Suc 0) = Some 3 \<and>
      refers_into s' (Suc 0) (Some (Cell 0)) \<and>
      traverse s' (Some (Cell 0)) [] = Some (Ok [1, 2, 3]) \<and>
      \<not> refers_into s' (Suc 0) (before_begin 0))"
proof -
  have r: "refers_into ex_lists_123_98 0 (Some (Cell 0))"
    by (simp add: refers_into_is_list [OF is_list_ex_swap_0])
  have t: "traverse ex_lists_123_98 (Some (Cell 0)) [] = Some (Ok [1, 2, 3])"
    using elements_is_list [OF is_list_ex_swap_0]
    by (simp add: elements_def list_begin_def obj_def ex_lists_123_98_def)
  from swap_exchanges_chains [OF is_list_ex_swap_0 is_list_ex_swap_1]
  show ?thesis
    using is_list_ex_swap_0 is_list_ex_swap_1 r t
      elements_is_list [OF is_list_ex_swap_0] elements_is_list [OF is_list_ex_swap_1]
      GetSize_is_list [OF is_list_ex_swap_0] GetSize_is_list [OF is_list_ex_swap_1]
    by auto
qed

text \<open>
  The claim as it is written fails for the \<open>before_begin()\<close> cursor: taken from list 0
  before \<open>swap\<close>, it refers into list 0, not into list 1, afterwards.
\<close>

theorem swap_before_begin_counterexample:
  "is_list ex_lists_123_98 0 [(0, 1), (1, 2), (2, 3)] \<and>
   is_list ex_lists_123_98 (Suc 0) [(3, 9), (4, 8)] \<and>
   refers_into ex_lists_123_98 0 (cbefore_begin 0) \<and>
   fst (swap 0 (Suc 0) ex_lists_123_98) = Ok () \<and>
   \<not> refers_into (snd (swap 0 (Suc 0) ex_lists_123_98)) (Suc 0) (cbefore_begin 0) \<and>
   refers_into (snd (swap 0 (Suc 0) ex_lists_123_98)) 0 (cbefore_begin 0)"
proof -
  have A: "obj ex_lists_123_98 0 = Some \<lparr>m_head_next = Some (Cell 0), m_size = 3\<rparr>"
    and B: "obj ex_lists_123_98 (Suc 0) = Some \<lparr>m_head_next = Some (Cell 3), m_size = 2\<rparr>"
    by (simp_all add: obj_def ex_lists_123_98_def)
  from swap_spec [OF A B] obtain s' where run: "swap 0 (Suc 0) ex_lists_123_98 = (Ok (), s')"
    and o: "obj s' = (obj ex_lists_123_98)(0 \<mapsto> \<lparr>m_head_next = Some (Cell 3), m_size = 2\<rparr>,
                     Suc 0 \<mapsto> \<lparr>m_head_next = Some (Cell 0), m_size = 3\<rparr>)"
    and c: "cell s' = cell ex_lists_123_98"
    by blast
  have l0: "is_list s' 0 [(3, 9), (4, 8)]"
    using is_list_ex_swap_1 by (simp add: is_list_iff o c A B)
  have l1: "is_list s' (Suc 0) [(0, 1), (1, 2), (2, 3)]"
    using is_list_ex_swap_0 by (simp add: is_list_iff o c A B)
  show ?thesis
    using is_list_ex_swap_0 is_list_ex_swap_1
    by (simp add: run refers_into_is_list [OF l0] refers_into_is_list [OF l1]
        refers_into_is_list [OF is_list_ex_swap_0] cbefore_begin_def)
qed

section \<open>Clear, destruction and construction\<close>

lemma SingleLinkedList_update_all [simp]:
  "(L :: SingleLinkedList)\<lparr>m_head_next := h, m_size := n\<rparr> = \<lparr>m_head_next = h, m_size = n\<rparr>"
  by (cases L) simp

lemma Clear_loop_chain:
  "obj s l = Some L \<Longrightarrow> chain (cell s) (m_head_next L) avs \<Longrightarrow>
   \<exists>s'. Clear_loop l s = (Ok (), s') \<and> obj s' = (obj s)(l \<mapsto> L\<lparr>m_head_next := None\<rparr>) \<and>
        cell s' = (\<lambda>a. if a \<in> fst ` set avs then None else cell s a) \<and>
        length (heap s') = length (heap s) \<and> length (objs s') = length (objs s) \<and>
        faults s' = faults s"
proof (induction avs arbitrary: s L)
  case Nil
  then have hd: "m_head_next L = None" by simp
  then have "L\<lparr>m_head_next := None\<rparr> = L" by simp
  then have "(obj s)(l \<mapsto> L\<lparr>m_head_next := None\<rparr>) = obj s"
    using Nil.prems(1) by (simp add: fun_upd_idem)
  moreover have "Clear_loop l s = (Ok (), s)"
    using Nil.prems(1) hd by (subst Clear_loop.simps) simp
  ultimately show ?case by simp
next
  case (Cons x avs)
  obtain d v where x: "x = (d, v)" by (cases x)
  from Cons.prems(2) have "distinct (map fst (x # avs))" by (rule chain_distinct)
  then have dn: "d \<notin> fst ` set avs" by (auto simp: x)
  from Cons.prems(2) obtain n where hd: "m_head_next L = Some (Cell d)"
    and n: "cell s d = Some n" and ch: "chain (cell s) (next_node n) avs"
    by (auto simp: x)
  define s1 where "s1 = set_obj l (L\<lparr>m_head_next := next_node n\<rparr>) s"
  define s2 where "s2 = s1\<lparr>heap := (heap s1)[d := None]\<rparr>"
  have n1: "cell s1 d = Some n" unfolding s1_def using n by simp
  have del: "delete_Node (Cell d) s1 = Some s2"
    unfolding s2_def by (rule delete_Node_Cell [OF n1])
  have o2: "obj s2 = (obj s)(l \<mapsto> L\<lparr>m_head_next := next_node n\<rparr>)"
    unfolding s2_def s1_def using Cons.prems(1) by simp
  have c2: "cell s2 = (cell s)(d := None)"
    unfolding s2_def using cell_heap_update_live [OF n1] by (simp add: s1_def)
  have step: "Clear_loop l s = Clear_loop l s2"
    using Cons.prems(1) hd n del
    by (subst Clear_loop.simps) (simp add: s1_def [symmetric])
  have L2: "obj s2 l = Some (L\<lparr>m_head_next := next_node n\<rparr>)" by (simp add: o2)
  have ch2: "chain (cell s2) (m_head_next (L\<lparr>m_head_next := next_node n\<rparr>)) avs"
    using ch dn by (simp add: c2)
  from Cons.IH [OF L2 ch2] obtain s' where run: "Clear_loop l s2 = (Ok (), s')"
    and o': "obj s' = (obj s2)(l \<mapsto> L\<lparr>m_head_next := next_node n\<rparr>\<lparr>m_head_next := None\<rparr>)"
    and c': "cell s' = (\<lambda>a. if a \<in> fst ` set avs then None else cell s2 a)"
    and rest: "length (heap s') = length (heap s2)" "length (objs s') = length (objs s2)"
      "faults s' = faults s2"
    by blast
  have "Clear_loop l s = (Ok (), s')" using step run by simp
  moreover have "obj s' = (obj s)(l \<mapsto> L\<lparr>m_head_next := None\<rparr>)" by (simp add: o' o2)
  moreover have "cell s' = (\<lambda>a. if a \<in> fst ` set (x # avs) then None else cell s a)"
    by (rule ext) (simp add: c' c2 x)
  moreover have "length (heap s') = length (heap s)" "length (objs s') = length (objs s)"
    "faults s' = faults s"
    using rest unfolding s2_def s1_def by simp_all
  ultimately show ?case by blast
qed

lemma Clear_spec:
  assumes "is_list s l avs"
  shows "\<exists>s'. Clear l s = (Ok (), s') \<and> is_list s' l [] \<and>
           obj s' = (obj s)(l \<mapsto> \<lparr>m_head_next = None, m_size = 0\<rparr>) \<and>
           cell s' = (\<lambda>a. if a \<in> fst ` set avs then None else cell s a) \<and>
           length (heap s') = length (heap s) \<and> length (objs s') = length (objs s) \<and>
           faults s' = faults s"
proof -
  from assms obtain L where L: "obj s l = Some L" "chain (cell s) (m_head_next L) avs"
    unfolding is_list_iff by blast
  from Clear_loop_chain [OF L] obtain s1 where run: "Clear_loop l s = (Ok (), s1)"
    and o1: "obj s1 = (obj s)(l \<mapsto> L\<lparr>m_head_next := None\<rparr>)"
    and c1: "cell s1 = (\<lambda>a. if a \<in> fst ` set avs then None else cell s a)"
    and rest: "length (heap s1) = length (heap s)" "length (objs s1) = length (objs s)"
      "faults s1 = faults s"
    by blast
  define s' where "s' = set_obj l (L\<lparr>m_head_next := None, m_size := 0\<rparr>) s1"
  have L1: "obj s1 l = Some (L\<lparr>m_head_next := None\<rparr>)" by (simp add: o1)
  have cl: "Clear l s = (Ok (), s')"
    by (simp add: Clear_def run L1 s'_def)
  have o': "obj s' = (obj s)(l \<mapsto> \<lparr>m_head_next = None, m_size = 0\<rparr>)"
    unfolding s'_def using L1 by (simp add: o1)
  have c': "cell s' = (\<lambda>a. if a \<in> fst ` set avs then None else cell s a)"
    unfolding s'_def by (simp add: c1)
  have "is_list s' l []" by (simp add: is_list_iff o')
  moreover have "length (heap s') = length (heap s)" "length (objs s') = length (objs s)"
    "faults s' = faults s"
    unfolding s'_def using rest by simp_all
  ultimately show ?thesis using cl o' c' by blast
qed

lemma heap_release_obj [simp]: "heap (release_obj l s) = heap s"
  by (simp add: release_obj_def)

lemma faults_release_obj [simp]: "faults (release_obj l s) = faults s"
  by (simp add: release_obj_def)

lemma length_objs_release_obj [simp]: "length (objs (release_obj l s)) = length (objs s)"
  by (simp add: release_obj_def)

lemma destructor_spec:
  assumes "is_list s l avs"
  shows "\<exists>s'. destructor l s = (Ok (), s') \<and> obj s' = (obj s)(l := None) \<and>
           cell s' = (\<lambda>a. if a \<in> fst ` set avs then None else cell s a) \<and>
           length (heap s') = length (heap s) \<and> length (objs s') = length (objs s) \<and>
           faults s' = faults s"
proof -
  from Clear_spec [OF assms] obtain s1 where cl: "Clear l s = (Ok (), s1)"
    and o1: "obj s1 = (obj s)(l \<mapsto> \<lparr>m_head_next = None, m_size = 0\<rparr>)"
    and c1: "cell s1 = (\<lambda>a. if a \<in> fst ` set avs then None else cell s a)"
    and rest: "length (heap s1) = length (heap s)" "length (objs s1) = length (objs s)"
      "faults s1 = faults s"
    by blast
  have "destructor l s = (Ok (), release_obj l s1)" by (simp add: destructor_def cl)
  moreover have "obj (release_obj l s1) = (obj s)(l := None)" by (simp add: o1)
  ultimately show ?thesis using c1 rest by (intro exI [of _ "release_obj l s1"]) simp
qed

lemma fresh_nodes_Nil [simp]: "fresh_nodes n [] = []"
  by (simp add: fresh_nodes_def)

lemma fresh_nodes_Cons [simp]: "fresh_nodes n (v # vs) = (n, v) # fresh_nodes (Suc n) vs"
  by (simp add: fresh_nodes_def upt_conv_Cons del: upt_Suc)

lemma map_snd_fresh_nodes [simp]: "map snd (fresh_nodes n vs) = vs"
  by (simp add: fresh_nodes_def)

lemma map_fst_fresh_nodes [simp]: "map fst (fresh_nodes n vs) = [n..<n + length vs]"
  by (simp add: fresh_nodes_def)

lemma length_fresh_nodes [simp]: "length (fresh_nodes n vs) = length vs"
  by (simp add: fresh_nodes_def)

lemma fst_set_fresh_nodes [simp]: "fst ` set (fresh_nodes n vs) = {n..<n + length vs}"
  using map_fst_fresh_nodes [of n vs] by (metis atLeastLessThan_upt list.set_map)

lemma first_fault_Nil [simp]: "first_fault n [] = None"
  by (cases n) simp_all

lemma first_fault_Suc:
  "first_fault (Suc n) (faults s) =
     (case next_fault s of None \<Rightarrow> first_fault n (tl (faults s)) | Some e \<Rightarrow> Some e)"
proof (cases "faults s")
  case Nil
  then show ?thesis by (simp add: next_fault_def)
next
  case (Cons f fs)
  then show ?thesis by (cases f) (simp_all add: next_fault_def)
qed

lemma cursor_after_in:
  "cursor_after c built = Some (Cell a) \<Longrightarrow> a \<in> fst ` set built"
  by (cases built rule: rev_cases) (auto simp: cursor_after_def before_begin_def)

lemma cursor_after_snoc [simp]: "cursor_after c (built @ [(n, v)]) = Some (Cell n)"
  by (simp add: cursor_after_def)

lemma il_loop_spec:
  "is_list s c built \<Longrightarrow>
   \<exists>k s'. il_loop c vs (cursor_after c built) s =
             ((case first_fault (length vs) (faults s) of
                 None \<Rightarrow> Ok () | Some e \<Rightarrow> Throw e), s') \<and>
      k \<le> length vs \<and> (first_fault (length vs) (faults s) = None \<longrightarrow> k = length vs) \<and>
      is_list s' c (built @ fresh_nodes (length (heap s)) (take k vs)) \<and>
      length (heap s') = length (heap s) + k \<and>
      (\<forall>a. a < length (heap s) \<longrightarrow> a \<notin> fst ` set built \<longrightarrow> cell s' a = cell s a) \<and>
      (\<forall>j. j \<noteq> c \<longrightarrow> obj s' j = obj s j) \<and> length (objs s') = length (objs s)"
proof (induction vs arbitrary: s built)
  case Nil
  then show ?case by (intro exI [of _ 0] exI [of _ s]) simp
next
  case (Cons v vs)
  define n where "n = length (heap s)"
  have l0: "is_list s c (built @ [])" using Cons.prems by simp
  show ?case
  proof (cases "next_fault s")
    case (Some e)
    have run: "InsertAfter c (cursor_after c built) v s = (Throw e, s\<lparr>faults := tl (faults s)\<rparr>)"
      by (rule InsertAfter_throw [OF l0 Some])
    have ff: "first_fault (Suc (length vs)) (faults s) = Some e"
      by (simp add: first_fault_Suc Some)
    have "is_list (s\<lparr>faults := tl (faults s)\<rparr>) c built"
      using Cons.prems by (simp add: is_list_iff)
    then show ?thesis
      by (intro exI [of _ 0] exI [of _ "s\<lparr>faults := tl (faults s)\<rparr>"]) (simp add: run ff)
  next
    case None
    from InsertAfter_ok [OF l0 None, of v] obtain s1 where
      ia: "InsertAfter c (cursor_after c built) v s = (Ok (Some (Cell n)), s1)"
      and l1: "is_list s1 c (built @ [(n, v)])"
      and c1: "\<forall>a. a < n \<longrightarrow> cursor_after c built \<noteq> Some (Cell a) \<longrightarrow> cell s1 a = cell s a"
      and o1: "\<forall>k. k \<noteq> c \<longrightarrow> obj s1 k = obj s k"
      and h1: "length (heap s1) = Suc n" and b1: "length (objs s1) = length (objs s)"
      and f1: "faults s1 = tl (faults s)"
      unfolding n_def by auto
    from Cons.IH [OF l1, of] obtain k s' where
      run: "il_loop c vs (cursor_after c (built @ [(n, v)])) s1 =
             ((case first_fault (length vs) (faults s1) of
                 None \<Rightarrow> Ok () | Some e \<Rightarrow> Throw e), s')"
      and k: "k \<le> length vs" "first_fault (length vs) (faults s1) = None \<longrightarrow> k = length vs"
      and l': "is_list s' c ((built @ [(n, v)]) @
                 fresh_nodes (length (heap s1)) (take k vs))"
      and h': "length (heap s') = length (heap s1) + k"
      and c': "\<forall>a. a < length (heap s1) \<longrightarrow> a \<notin> fst ` set (built @ [(n, v)]) \<longrightarrow>
                  cell s' a = cell s1 a"
      and o': "\<forall>j. j \<noteq> c \<longrightarrow> obj s' j = obj s1 j"
      and b': "length (objs s') = length (objs s1)"
      by (elim exE conjE) (rule that, assumption+)
    have ff: "first_fault (Suc (length vs)) (faults s) = first_fault (length vs) (faults s1)"
      by (simp add: first_fault_Suc None f1)
    have run': "il_loop c (v # vs) (cursor_after c built) s =
             ((case first_fault (Suc (length vs)) (faults s) of
                 None \<Rightarrow> Ok () | Some e \<Rightarrow> Throw e), s')"
      using run by (simp add: ia ff del: first_fault.simps)
    have l'': "is_list s' c (built @ fresh_nodes n (take (Suc k) (v # vs)))"
      using l' by (simp add: h1)
    have fr: "cell s' a = cell s a" if "a < n" "a \<notin> fst ` set built" for a
    proof -
      have "cursor_after c built \<noteq> Some (Cell a)" using that(2) cursor_after_in by blast
      then have "cell s1 a = cell s a" using c1 that(1) by simp
      moreover have "cell s' a = cell s1 a" using c' that by (simp add: h1)
      ultimately show ?thesis by simp
    qed
    have "length (v # vs) = Suc (length vs)" by simp
    then show ?thesis
      unfolding n_def [symmetric]
      using run' k l'' h' h1 fr o' o1 b' b1 ff
      by (intro exI [of _ "Suc k"] exI [of _ s']) (simp del: first_fault.simps il_loop.simps)
  qed
qed

lemma obj_objs_append:
  "obj (s\<lparr>objs := objs s @ [x]\<rparr>) = (obj s)(length (objs s) := x)"
  by (rule ext) (auto simp: obj_def nth_append)

lemma cell_objs_upd [simp]: "cell (s\<lparr>objs := x\<rparr>) = cell s"
  by (rule ext) (simp add: cell_def)

lemma obj_fresh [simp]: "obj s (length (objs s)) = None"
  by (simp add: obj_def)

lemma destructor_empty:
  assumes "is_list s l []"
  shows "\<exists>s'. destructor l s = (Ok (), s') \<and> obj s' = (obj s)(l := None) \<and>
           cell s' = cell s \<and> length (heap s') = length (heap s) \<and>
           length (objs s') = length (objs s) \<and> faults s' = faults s"
  using destructor_spec [OF assms] by simp

lemma il_loop_fresh:
  "is_list s c [] \<Longrightarrow>
   \<exists>k s'. il_loop c vs (before_begin c) s =
             ((case first_fault (length vs) (faults s) of
                 None \<Rightarrow> Ok () | Some e \<Rightarrow> Throw e), s') \<and>
      k \<le> length vs \<and> (first_fault (length vs) (faults s) = None \<longrightarrow> k = length vs) \<and>
      is_list s' c (fresh_nodes (length (heap s)) (take k vs)) \<and>
      length (heap s') = length (heap s) + k \<and>
      (\<forall>a. a < length (heap s) \<longrightarrow> cell s' a = cell s a) \<and>
      (\<forall>j. j \<noteq> c \<longrightarrow> obj s' j = obj s j) \<and> length (objs s') = length (objs s)"
  using il_loop_spec [of s c "[]" vs] by simp

lemma CreateSingleLinkedList_il_spec:
  fixes s :: "'a state"
  assumes "is_list s this []"
  shows "\<exists>s'. CreateSingleLinkedList_il this vs s =
            ((case first_fault (length vs) (faults s) of
                None \<Rightarrow> Ok () | Some e \<Rightarrow> Throw e), s') \<and>
     (\<forall>a. a < length (heap s) \<longrightarrow> cell s' a = cell s a) \<and>
     length (heap s) \<le> length (heap s') \<and>
     (\<forall>j. j \<noteq> this \<longrightarrow> obj s' j = obj s j) \<and>
     length (objs s') = Suc (length (objs s)) \<and>
     (case first_fault (length vs) (faults s) of
        None \<Rightarrow> is_list s' this (fresh_nodes (length (heap s)) vs) \<and>
                length (heap s') = length (heap s) + length vs
      | Some e \<Rightarrow> cell s' = cell s \<and> obj s' this = obj s this)"
proof -
  define c where "c = length (objs s)"
  define n where "n = length (heap s)"
  define s0 where "s0 = s\<lparr>objs := objs s @ [Some \<lparr>m_head_next = None, m_size = 0\<rparr>]\<rparr>"
  from assms obtain T where T: "obj s this = Some T" "m_head_next T = None" "m_size T = 0"
    by (auto simp: is_list_iff)
  have tc: "this \<noteq> c" using obj_Some_less [OF T(1)] by (simp add: c_def)
  have o0: "obj s0 = (obj s)(c \<mapsto> \<lparr>m_head_next = None, m_size = 0\<rparr>)"
    unfolding s0_def c_def by (rule obj_objs_append)
  have c0: "cell s0 = cell s" unfolding s0_def by simp
  have h0: "heap s0 = heap s" "faults s0 = faults s" "length (objs s0) = Suc (length (objs s))"
    unfolding s0_def by simp_all
  have def: "SingleLinkedList_default s = (c, s0)"
    by (simp add: SingleLinkedList_default_def c_def s0_def)
  have l0: "is_list s0 c []" by (simp add: is_list_iff o0)
  from il_loop_fresh [OF l0, of vs] obtain k s1 where
    il: "il_loop c vs (before_begin c) s0 =
             ((case first_fault (length vs) (faults s0) of
                 None \<Rightarrow> Ok () | Some e \<Rightarrow> Throw e), s1) \<and>
      k \<le> length vs \<and> (first_fault (length vs) (faults s0) = None \<longrightarrow> k = length vs) \<and>
      is_list s1 c (fresh_nodes (length (heap s0)) (take k vs)) \<and>
      length (heap s1) = length (heap s0) + k \<and>
      (\<forall>a. a < length (heap s0) \<longrightarrow> cell s1 a = cell s0 a) \<and>
      (\<forall>j. j \<noteq> c \<longrightarrow> obj s1 j = obj s0 j) \<and> length (objs s1) = length (objs s0)"
    by (elim exE) (erule that)
  have run0: "il_loop c vs (before_begin c) s0 =
             ((case first_fault (length vs) (faults s0) of
                 None \<Rightarrow> Ok () | Some e \<Rightarrow> Throw e), s1)"
    and k0: "k \<le> length vs" "first_fault (length vs) (faults s0) = None \<longrightarrow> k = length vs"
    and l10: "is_list s1 c (fresh_nodes (length (heap s0)) (take k vs))"
    and h10: "length (heap s1) = length (heap s0) + k"
    and c10: "\<forall>a. a < length (heap s0) \<longrightarrow> cell s1 a = cell s0 a"
    and o10: "\<forall>j. j \<noteq> c \<longrightarrow> obj s1 j = obj s0 j"
    and b10: "length (objs s1) = length (objs s0)"
    using il by simp_all
  have run: "il_loop c vs (before_begin c) s0 =
             ((case first_fault (length vs) (faults s) of
                 None \<Rightarrow> Ok () | Some e \<Rightarrow> Throw e), s1)"
    using run0 by (simp only: h0)
  have k: "k \<le> length vs" "first_fault (length vs) (faults s) = None \<longrightarrow> k = length vs"
    using k0 by (simp_all only: h0)
  have l1: "is_list s1 c (fresh_nodes n (take k vs))"
    using l10 by (simp only: h0 n_def)
  have h1: "length (heap s1) = n + k" using h10 by (simp only: h0 n_def)
  have c1: "\<forall>a. a < n \<longrightarrow> cell s1 a = cell s a"
    using c10 by (simp add: h0 n_def c0)
  have o1: "\<forall>j. j \<noteq> c \<longrightarrow> obj s1 j = obj s j"
    using o10 by (simp add: o0)
  have b1: "length (objs s1) = Suc (length (objs s))" using b10 by (simp only: h0)
  from l1 obtain C where C: "obj s1 c = Some C"
    "chain (cell s1) (m_head_next C) (fresh_nodes n (take k vs))"
    "m_size C = length (fresh_nodes n (take k vs))"
    unfolding is_list_iff by blast
  have T1: "obj s1 this = Some T" using o1 tc T(1) by simp
  show ?thesis
  proof (cases "first_fault (length vs) (faults s)")
    case None
    then have kk: "k = length vs" using k(2) by simp
    from swap_spec [OF T1 C(1)] obtain s2 where
      sw: "swap this c s1 = (Ok (), s2)"
      and o2: "obj s2 = (obj s1)(this \<mapsto> C, c \<mapsto> T)"
      and c2: "cell s2 = cell s1" and h2: "heap s2 = heap s1"
      and b2: "length (objs s2) = length (objs s1)"
      by blast
    have l2: "is_list s2 c []" using T(2,3) by (simp add: is_list_iff o2)
    from destructor_empty [OF l2] obtain s3 where
      de: "destructor c s2 = (Ok (), s3)"
      and o3: "obj s3 = (obj s2)(c := None)"
      and c3: "cell s3 = cell s2"
      and h3: "length (heap s3) = length (heap s2)"
      and b3: "length (objs s3) = length (objs s2)"
      by blast
    have c3': "cell s3 = cell s1" using c3 c2 by simp
    have fin: "CreateSingleLinkedList_il this vs s = (Ok (), s3)"
      using run by (simp add: CreateSingleLinkedList_il_def def finish_create_def None
          sw de)
    have "is_list s3 this (fresh_nodes n vs)"
      using C(2,3) tc by (simp add: is_list_iff o3 o2 c3' kk)
    moreover have "\<forall>j. j \<noteq> this \<longrightarrow> obj s3 j = obj s j"
      using o1 by (simp add: o3 o2 c_def)
    moreover have "length (heap s3) = n + length vs" using h3 h2 h1 kk by simp
    ultimately show ?thesis
      using fin c1 b3 b2 b1 unfolding n_def [symmetric]
      by (intro exI [of _ s3]) (simp add: None c3')
  next
    case (Some e)
    from destructor_spec [OF l1] obtain s2 where
      de: "destructor c s1 = (Ok (), s2)"
      and o2: "obj s2 = (obj s1)(c := None)"
      and c2: "cell s2 = (\<lambda>a. if a \<in> fst ` set (fresh_nodes n (take k vs)) then None
                                else cell s1 a)"
      and h2: "length (heap s2) = length (heap s1)"
      and b2: "length (objs s2) = length (objs s1)"
      by blast
    have fin: "CreateSingleLinkedList_il this vs s = (Throw e, s2)"
      using run by (simp add: CreateSingleLinkedList_il_def def finish_create_def Some
          de)
    have "cell s2 a = cell s a" for a
    proof (cases "a < n")
      case True
      then show ?thesis using c1 by (simp add: c2)
    next
      case False
      then have "cell s a = None" by (simp add: n_def cell_beyond)
      moreover have "cell s2 a = None"
        using False h1 k(1) by (auto simp: c2 cell_beyond)
      ultimately show ?thesis by simp
    qed
    then have cs: "cell s2 = cell s" by (rule ext)
    have "\<forall>j. j \<noteq> this \<longrightarrow> obj s2 j = obj s j"
      using o1 by (simp add: o2 c_def)
    moreover have "obj s2 this = obj s this" using T1 T(1) tc by (simp add: o2)
    moreover have "n \<le> length (heap s2)" using h2 h1 by simp
    ultimately show ?thesis
      using fin cs b2 b1 unfolding n_def [symmetric]
      by (intro exI [of _ s2]) (simp add: Some)
  qed
qed

lemma SingleLinkedList_il_spec:
  fixes s :: "'a state"
  shows "\<exists>s'. SingleLinkedList_il vs s =
            ((case first_fault (length vs) (faults s) of
                None \<Rightarrow> Ok (length (objs s)) | Some e \<Rightarrow> Throw e), s') \<and>
     (\<forall>a. a < length (heap s) \<longrightarrow> cell s' a = cell s a) \<and>
     length (heap s) \<le> length (heap s') \<and>
     (\<forall>j. j < length (objs s) \<longrightarrow> obj s' j = obj s j) \<and>
     length (objs s') = Suc (Suc (length (objs s))) \<and>
     obj s' (Suc (length (objs s))) = None \<and>
     (case first_fault (length vs) (faults s) of
        None \<Rightarrow> is_list s' (length (objs s)) (fresh_nodes (length (heap s)) vs) \<and>
                length (heap s') = length (heap s) + length vs
      | Some e \<Rightarrow> cell s' = cell s \<and> obj s' = obj s)"
proof -
  define this where "this = length (objs s)"
  define s0 where "s0 = s\<lparr>objs := objs s @ [Some \<lparr>m_head_next = None, m_size = 0\<rparr>]\<rparr>"
  have o0: "obj s0 = (obj s)(this \<mapsto> \<lparr>m_head_next = None, m_size = 0\<rparr>)"
    unfolding s0_def this_def by (rule obj_objs_append)
  have c0: "cell s0 = cell s" unfolding s0_def by simp
  have h0: "heap s0 = heap s" "faults s0 = faults s" "length (objs s0) = Suc (length (objs s))"
    unfolding s0_def by simp_all
  have def: "SingleLinkedList_default s = (this, s0)"
    by (simp add: SingleLinkedList_default_def this_def s0_def)
  have l0: "is_list s0 this []" by (simp add: is_list_iff o0)
  from CreateSingleLinkedList_il_spec [OF l0, of vs] obtain s1 where
    cr: "CreateSingleLinkedList_il this vs s0 =
            ((case first_fault (length vs) (faults s0) of
                None \<Rightarrow> Ok () | Some e \<Rightarrow> Throw e), s1) \<and>
     (\<forall>a. a < length (heap s0) \<longrightarrow> cell s1 a = cell s0 a) \<and>
     length (heap s0) \<le> length (heap s1) \<and>
     (\<forall>j. j \<noteq> this \<longrightarrow> obj s1 j = obj s0 j) \<and>
     length (objs s1) = Suc (length (objs s0)) \<and>
     (case first_fault (length vs) (faults s0) of
        None \<Rightarrow> is_list s1 this (fresh_nodes (length (heap s0)) vs) \<and>
                length (heap s1) = length (heap s0) + length vs
      | Some e \<Rightarrow> cell s1 = cell s0 \<and> obj s1 this = obj s0 this)"
    by (elim exE) (erule that)
  have o1: "obj s1 j = obj s j" if "j \<noteq> this" for j
    using cr that by (simp add: o0)
  have A: "\<forall>a. a < length (heap s) \<longrightarrow> cell s1 a = cell s a"
    and B: "length (heap s) \<le> length (heap s1)"
    and D: "length (objs s1) = Suc (Suc (length (objs s)))"
    using cr by (simp_all add: h0 c0)
  have C: "\<forall>j. j < length (objs s) \<longrightarrow> obj s1 j = obj s j"
    using o1 by (simp add: this_def)
  have E: "obj s1 (Suc (length (objs s))) = None"
    using o1 [of "Suc (length (objs s))"] by (simp add: this_def obj_beyond)
  show ?thesis
  proof (cases "first_fault (length vs) (faults s)")
    case None
    have run: "SingleLinkedList_il vs s = (Ok (length (objs s)), s1)"
      using cr by (simp add: SingleLinkedList_il_def def o0 ctor_body_def None h0 this_def)
    have "is_list s1 (length (objs s)) (fresh_nodes (length (heap s)) vs)"
      "length (heap s1) = length (heap s) + length vs"
      using cr by (simp_all add: None h0 this_def)
    then show ?thesis
      using run A B C D E by (intro exI [of _ s1]) (simp add: None)
  next
    case (Some e)
    define s' where "s' = release_obj this s1"
    have run: "SingleLinkedList_il vs s = (Throw e, s')"
      using cr by (simp add: SingleLinkedList_il_def def o0 ctor_body_def Some h0 s'_def)
    have "obj s' j = obj s j" for j
      using o1 [of j] by (simp add: this_def s'_def)
    then have os: "obj s' = obj s" by (rule ext)
    have cs: "cell s' = cell s"
      using cr by (simp add: Some h0 c0 s'_def)
    have "length (heap s') = length (heap s1)" "length (objs s') = length (objs s1)"
      by (simp_all add: s'_def)
    then show ?thesis
      using run A B C D E
      by (intro exI [of _ s']) (simp add: Some os cs obj_beyond)
  qed
qed

text \<open>
  C8: the constructor from a literal sequence \<open>vs\<close> returns unless one of the coming
  \<open>length vs\<close> allocations is scheduled to throw. When it returns, the new list (a new
  list object) is well-formed with a chain of \<open>length vs\<close> fresh nodes, at addresses no
  node of the store had before, holding \<open>vs\<close> in order; its traversal gives \<open>vs\<close> and its
  size is \<open>length vs\<close>; every node and list object there was before is unchanged. When
  it throws, the store holds the nodes and list objects it held before.
\<close>

theorem SingleLinkedList_il_builds_sequence:
  fixes s :: "'a state"
  shows "\<exists>s'. SingleLinkedList_il vs s =
            ((case first_fault (length vs) (faults s) of
                None \<Rightarrow> Ok (length (objs s)) | Some e \<Rightarrow> Throw e), s') \<and>
     (\<forall>a. a < length (heap s) \<longrightarrow> cell s' a = cell s a) \<and>
     (\<forall>j. j < length (objs s) \<longrightarrow> obj s' j = obj s j) \<and>
     (case first_fault (length vs) (faults s) of
        None \<Rightarrow>
          is_list s' (length (objs s)) (zip [length (heap s)..<length (heap s) + length vs] vs) \<and>
          elements s' (length (objs s)) = Some (Ok vs) \<and>
          GetSize s' (length (objs s)) = Some (length vs)
      | Some e \<Rightarrow> cell s' = cell s \<and> obj s' = obj s)"
proof -
  from SingleLinkedList_il_spec [of vs s] obtain s' where
    sp: "SingleLinkedList_il vs s =
            ((case first_fault (length vs) (faults s) of
                None \<Rightarrow> Ok (length (objs s)) | Some e \<Rightarrow> Throw e), s') \<and>
     (\<forall>a. a < length (heap s) \<longrightarrow> cell s' a = cell s a) \<and>
     length (heap s) \<le> length (heap s') \<and>
     (\<forall>j. j < length (objs s) \<longrightarrow> obj s' j = obj s j) \<and>
     length (objs s') = Suc (Suc (length (objs s))) \<and>
     obj s' (Suc (length (objs s))) = None \<and>
     (case first_fault (length vs) (faults s) of
        None \<Rightarrow> is_list s' (length (objs s)) (fresh_nodes (length (heap s)) vs) \<and>
                length (heap s') = length (heap s) + length vs
      | Some e \<Rightarrow> cell s' = cell s \<and> obj s' = obj s)"
    by (elim exE) (erule that)
  show ?thesis
  proof (cases "first_fault (length vs) (faults s)")
    case None
    with sp have l: "is_list s' (length (objs s)) (fresh_nodes (length (heap s)) vs)" by simp
    have "elements s' (length (objs s)) = Some (Ok vs)"
      "GetSize s' (length (objs s)) = Some (length vs)"
      using elements_is_list [OF l] GetSize_is_list [OF l] by simp_all
    then show ?thesis
      using sp l by (intro exI [of _ s']) (simp add: None fresh_nodes_def)
  next
    case (Some e)
    then show ?thesis using sp by (intro exI [of _ s']) simp
  qed
qed

theorem SingleLinkedList_il_builds_sequence_witness:
  "\<exists>s'. SingleLinkedList_il [1, 2, 3, 4] ex_empty = (Ok 0, s') \<and>
     elements s' 0 = Some (Ok [1, 2, 3, 4]) \<and> GetSize s' 0 = Some 4"
  using SingleLinkedList_il_builds_sequence [of "[1, 2, 3, 4]" ex_empty]
  by (auto simp: ex_empty_def upt_conv_Cons)

section \<open>Copy construction and copy assignment\<close>

lemma chain_in_less: "chain (cell s) p avs \<Longrightarrow> a \<in> fst ` set avs \<Longrightarrow> a < length (heap s)"
  using chain_less by fastforce

lemma sll_loop_eq:
  "chain (cell s) it bvs \<Longrightarrow> is_list s c built \<Longrightarrow>
   fst ` set built \<inter> fst ` set bvs = {} \<Longrightarrow>
   sll_loop c it (cursor_after c built) s =
     Some (il_loop c (map snd bvs) (cursor_after c built) s)"
proof (induction bvs arbitrary: it s built)
  case Nil
  then show ?case by (subst sll_loop.simps) (simp add: it_ne_def cend_def)
next
  case (Cons x bvs)
  obtain a v where x: "x = (a, v)" by (cases x)
  define m where "m = length (heap s)"
  from Cons.prems(1) obtain n where it: "it = Some (Cell a)" and n: "cell s a = Some n"
    and nv: "node_value n = v" and ch: "chain (cell s) (next_node n) bvs"
    by (auto simp: x)
  have l0: "is_list s c (built @ [])" using Cons.prems(2) by simp
  have der: "it_deref s it = Ok v" by (simp add: it_deref_def it n nv)
  have ne: "it_ne it cend" by (simp add: it_ne_def cend_def it)
  show ?case
  proof (cases "next_fault s")
    case (Some e)
    have ia: "InsertAfter c (cursor_after c built) v s = (Throw e, s\<lparr>faults := tl (faults s)\<rparr>)"
      by (rule InsertAfter_throw [OF l0 Some])
    show ?thesis
      by (subst sll_loop.simps) (simp add: ne der ia x)
  next
    case None
    from InsertAfter_ok [OF l0 None, of v] obtain s1 where
      ia: "InsertAfter c (cursor_after c built) v s = (Ok (Some (Cell m)), s1)"
      and l1: "is_list s1 c (built @ [(m, v)])"
      and c1: "\<forall>a. a < m \<longrightarrow> cursor_after c built \<noteq> Some (Cell a) \<longrightarrow> cell s1 a = cell s a"
      unfolding m_def by auto
    have same: "cell s1 y = cell s y" if "y \<in> fst ` set (x # bvs)" for y
    proof -
      have "y < m" using chain_in_less [OF Cons.prems(1) that] by (simp add: m_def)
      moreover have "y \<notin> fst ` set built" using that Cons.prems(3) by blast
      then have "cursor_after c built \<noteq> Some (Cell y)" using cursor_after_in by blast
      ultimately show ?thesis using c1 by simp
    qed
    have n1: "cell s1 a = Some n" using same [of a] n by (simp add: x)
    have inc: "it_inc s1 it = Ok (next_node n)" by (simp add: it_inc_def it n1)
    have ch1: "chain (cell s1) (next_node n) bvs"
      using ch same chain_cong [of bvs "cell s1" "cell s" "next_node n"] by simp
    have "m \<notin> fst ` set bvs"
    proof
      assume "m \<in> fst ` set bvs"
      then have "m < length (heap s)" by (rule chain_in_less [OF ch])
      then show False by (simp add: m_def)
    qed
    then have dj: "fst ` set (built @ [(m, v)]) \<inter> fst ` set bvs = {}"
      using Cons.prems(3) by auto
    have IH: "sll_loop c (next_node n) (Some (Cell m)) s1 =
              Some (il_loop c (map snd bvs) (Some (Cell m)) s1)"
      using Cons.IH [OF ch1 l1 dj] by simp
    show ?thesis
      by (subst sll_loop.simps) (simp add: ne der ia inc IH x)
  qed
qed

lemma sll_loop_fresh:
  "is_list s c [] \<Longrightarrow> chain (cell s) it bvs \<Longrightarrow>
   sll_loop c it (before_begin c) s = Some (il_loop c (map snd bvs) (before_begin c) s)"
  using sll_loop_eq [of s it bvs c "[]"] by simp

lemma is_list_frame:
  assumes "is_list s l avs"
    and "\<forall>a. a < length (heap s) \<longrightarrow> cell s' a = cell s a"
    and "obj s' l = obj s l"
  shows "is_list s' l avs"
proof -
  from assms(1) obtain L where L: "obj s l = Some L" "chain (cell s) (m_head_next L) avs"
    "m_size L = length avs"
    unfolding is_list_iff by blast
  have "chain (cell s') (m_head_next L) avs = chain (cell s) (m_head_next L) avs"
    using chain_in_less [OF L(2)] assms(2) by (intro chain_cong) auto
  then show ?thesis using L assms(3) by (simp add: is_list_iff)
qed

lemma CreateSingleLinkedList_sll_eq:
  assumes "is_list s other bvs"
  shows "CreateSingleLinkedList_sll this other s =
         Some (CreateSingleLinkedList_il this (map snd bvs) s)"
proof -
  define c where "c = length (objs s)"
  define s0 where "s0 = s\<lparr>objs := objs s @ [Some \<lparr>m_head_next = None, m_size = 0\<rparr>]\<rparr>"
  from assms obtain L where L: "obj s other = Some L" "chain (cell s) (m_head_next L) bvs"
    unfolding is_list_iff by blast
  have oc: "other \<noteq> c" using obj_Some_less [OF L(1)] by (simp add: c_def)
  have o0: "obj s0 = (obj s)(c \<mapsto> \<lparr>m_head_next = None, m_size = 0\<rparr>)"
    unfolding s0_def c_def by (rule obj_objs_append)
  have c0: "cell s0 = cell s" unfolding s0_def by simp
  have def: "SingleLinkedList_default s = (c, s0)"
    by (simp add: SingleLinkedList_default_def c_def s0_def)
  have l0: "is_list s0 c []" by (simp add: is_list_iff o0)
  have ch0: "chain (cell s0) (m_head_next L) bvs" using L(2) by (simp add: c0)
  have "sll_loop c (m_head_next L) (before_begin c) s0 =
        Some (il_loop c (map snd bvs) (before_begin c) s0)"
    using l0 ch0 by (rule sll_loop_fresh)
  then show ?thesis
    using L(1) oc
    by (simp add: CreateSingleLinkedList_sll_def CreateSingleLinkedList_il_def def cbegin_def o0)
qed

lemma SingleLinkedList_copy_eq:
  assumes "is_list s other bvs"
  shows "SingleLinkedList_copy other s = Some (SingleLinkedList_il (map snd bvs) s)"
proof -
  define this where "this = length (objs s)"
  define s0 where "s0 = s\<lparr>objs := objs s @ [Some \<lparr>m_head_next = None, m_size = 0\<rparr>]\<rparr>"
  from assms obtain L where L: "obj s other = Some L"
    unfolding is_list_iff by blast
  have oc: "other \<noteq> this" using obj_Some_less [OF L] by (simp add: this_def)
  have o0: "obj s0 = (obj s)(this \<mapsto> \<lparr>m_head_next = None, m_size = 0\<rparr>)"
    unfolding s0_def this_def by (rule obj_objs_append)
  have c0: "cell s0 = cell s" unfolding s0_def by simp
  have def: "SingleLinkedList_default s = (this, s0)"
    by (simp add: SingleLinkedList_default_def this_def s0_def)
  have "is_list s0 other bvs" using assms oc by (simp add: is_list_iff o0 c0)
  then have "CreateSingleLinkedList_sll this other s0 =
         Some (CreateSingleLinkedList_il this (map snd bvs) s0)"
    by (rule CreateSingleLinkedList_sll_eq)
  then show ?thesis
    by (simp add: SingleLinkedList_copy_def SingleLinkedList_il_def def o0)
qed

lemma op_assign_spec:
  fixes s :: "'a state"
  assumes "is_list s this avs" and "is_list s rhs bvs" and "this \<noteq> rhs"
    and "fst ` set avs \<inter> fst ` set bvs = {}"
  shows "\<exists>s'. op_assign this rhs s =
            Some ((case first_fault (length bvs) (faults s) of
                     None \<Rightarrow> Ok this | Some e \<Rightarrow> Throw e), s') \<and>
     (\<forall>j. j \<noteq> this \<longrightarrow> obj s' j = obj s j) \<and>
     (case first_fault (length bvs) (faults s) of
        None \<Rightarrow>
          is_list s' this (fresh_nodes (length (heap s)) (map snd bvs)) \<and>
          is_list s' rhs bvs \<and>
          length (heap s') = length (heap s) + length bvs \<and>
          (\<forall>a. a < length (heap s) \<longrightarrow>
               cell s' a = (if a \<in> fst ` set avs then None else cell s a))
      | Some e \<Rightarrow> cell s' = cell s \<and> obj s' = obj s)"
proof -
  define t where "t = length (objs s)"
  define n where "n = length (heap s)"
  from assms(1) obtain A where A: "obj s this = Some A" unfolding is_list_iff by blast
  from assms(2) obtain B where B: "obj s rhs = Some B" unfolding is_list_iff by blast
  have lt: "this < t" "rhs < t"
    using obj_Some_less [OF A] obj_Some_less [OF B] by (simp_all add: t_def)
  have cp: "SingleLinkedList_copy rhs s = Some (SingleLinkedList_il (map snd bvs) s)"
    using assms(2) by (rule SingleLinkedList_copy_eq)
  from SingleLinkedList_il_spec [of "map snd bvs" s] obtain s1 where
    sp: "SingleLinkedList_il (map snd bvs) s =
            ((case first_fault (length (map snd bvs)) (faults s) of
                None \<Rightarrow> Ok (length (objs s)) | Some e \<Rightarrow> Throw e), s1) \<and>
     (\<forall>a. a < length (heap s) \<longrightarrow> cell s1 a = cell s a) \<and>
     length (heap s) \<le> length (heap s1) \<and>
     (\<forall>j. j < length (objs s) \<longrightarrow> obj s1 j = obj s j) \<and>
     length (objs s1) = Suc (Suc (length (objs s))) \<and>
     obj s1 (Suc (length (objs s))) = None \<and>
     (case first_fault (length (map snd bvs)) (faults s) of
        None \<Rightarrow> is_list s1 (length (objs s)) (fresh_nodes (length (heap s)) (map snd bvs)) \<and>
                length (heap s1) = length (heap s) + length (map snd bvs)
      | Some e \<Rightarrow> cell s1 = cell s \<and> obj s1 = obj s)"
    by (elim exE) (erule that)
  have c1: "\<forall>a. a < length (heap s) \<longrightarrow> cell s1 a = cell s a"
    and o1: "\<forall>j. j < length (objs s) \<longrightarrow> obj s1 j = obj s j"
    and b1: "length (objs s1) = Suc (Suc t)" and e1: "obj s1 (Suc t) = None"
    using sp by (simp_all add: t_def)
  show ?thesis
  proof (cases "first_fault (length bvs) (faults s)")
    case (Some e)
    have il: "SingleLinkedList_il (map snd bvs) s = (Throw e, s1)"
      and same: "cell s1 = cell s" "obj s1 = obj s"
      using sp by (simp_all add: Some)
    have "op_assign this rhs s = Some (Throw e, s1)"
      using assms(3) by (simp add: op_assign_def cp il)
    then show ?thesis using same by (intro exI [of _ s1]) (simp add: Some)
  next
    case None
    have il: "SingleLinkedList_il (map snd bvs) s = (Ok t, s1)"
      and lt1: "is_list s1 t (fresh_nodes n (map snd bvs))"
      and h1: "length (heap s1) = n + length bvs"
      using sp by (simp_all add: None t_def n_def)
    from lt1 obtain T where T: "obj s1 t = Some T" unfolding is_list_iff by blast
    have A1: "obj s1 this = Some A" using o1 lt A by (simp add: t_def)
    have la1: "is_list s1 this avs"
      using assms(1) c1 by (rule is_list_frame) (simp add: o1 lt t_def [symmetric])
    have lb1: "is_list s1 rhs bvs"
      using assms(2) c1 by (rule is_list_frame) (simp add: o1 lt t_def [symmetric])
    from swap_spec [OF A1 T] obtain s2 where
      sw: "swap this t s1 = (Ok (), s2)"
      and o2: "obj s2 = (obj s1)(this \<mapsto> T, t \<mapsto> A)"
      and c2: "cell s2 = cell s1" and h2: "heap s2 = heap s1"
      by blast
    have tt: "this \<noteq> t" "rhs \<noteq> t" using lt by simp_all
    have la2: "is_list s2 t avs"
      using la1 A1 by (simp add: is_list_iff o2 c2)
    from destructor_spec [OF la2] obtain s3 where
      de: "destructor t s2 = (Ok (), s3)"
      and o3: "obj s3 = (obj s2)(t := None)"
      and c3: "cell s3 = (\<lambda>a. if a \<in> fst ` set avs then None else cell s2 a)"
      and h3: "length (heap s3) = length (heap s2)"
      by blast
    have run: "op_assign this rhs s = Some (Ok this, s3)"
      using assms(3) by (simp add: op_assign_def cp il sw de)
    have fresh: "a \<notin> fst ` set avs" if "a \<in> fst ` set (fresh_nodes n (map snd bvs))" for a
    proof
      assume "a \<in> fst ` set avs"
      then have "a < n"
        using assms(1) chain_in_less unfolding is_list_iff n_def by blast
      then show False using that by simp
    qed
    have l3: "is_list s3 this (fresh_nodes n (map snd bvs))"
    proof -
      from lt1 T have ch: "chain (cell s1) (m_head_next T) (fresh_nodes n (map snd bvs))"
        and sz: "m_size T = length (fresh_nodes n (map snd bvs))"
        by (simp_all add: is_list_iff)
      have "chain (cell s3) (m_head_next T) (fresh_nodes n (map snd bvs)) =
            chain (cell s1) (m_head_next T) (fresh_nodes n (map snd bvs))"
        using fresh by (intro chain_cong) (simp add: c3 c2)
      then show ?thesis using ch sz tt by (simp add: is_list_iff o3 o2)
    qed
    have r3: "is_list s3 rhs bvs"
    proof -
      from lb1 obtain B1 where B1: "obj s1 rhs = Some B1"
        "chain (cell s1) (m_head_next B1) bvs" "m_size B1 = length bvs"
        unfolding is_list_iff by blast
      have "chain (cell s3) (m_head_next B1) bvs = chain (cell s1) (m_head_next B1) bvs"
        using assms(4) by (intro chain_cong) (auto simp: c3 c2)
      then show ?thesis using B1 tt assms(3) by (simp add: is_list_iff o3 o2)
    qed
    have objs: "obj s3 j = obj s j" if "j \<noteq> this" for j
    proof (cases "j < t")
      case True
      then show ?thesis using that o1 by (simp add: o3 o2 t_def)
    next
      case False
      then have "obj s j = None" by (simp add: t_def obj_beyond)
      moreover have "obj s3 j = None"
      proof (cases "j = t \<or> j = Suc t")
        case True
        then show ?thesis using e1 tt that by (auto simp: o3 o2)
      next
        case False
        with \<open>\<not> j < t\<close> have "Suc (Suc t) \<le> j" by simp
        then have "obj s1 j = None" using b1 by (simp add: obj_beyond)
        then show ?thesis using False that by (simp add: o3 o2)
      qed
      ultimately show ?thesis by simp
    qed
    have cells: "\<forall>a. a < n \<longrightarrow> cell s3 a = (if a \<in> fst ` set avs then None else cell s a)"
      using c1 by (simp add: c3 c2 n_def)
    have "length (heap s3) = n + length bvs" using h3 h2 h1 by simp
    then show ?thesis
      using run l3 r3 objs cells unfolding n_def
      by (intro exI [of _ s3]) (simp add: None)
  qed
qed

lemma chain_live: "chain c p avs \<Longrightarrow> a \<in> fst ` set avs \<Longrightarrow> c a \<noteq> None"
proof (induction avs arbitrary: p)
  case Nil
  then show ?case by simp
next
  case (Cons x avs)
  obtain b v where x: "x = (b, v)" by (cases x)
  from Cons.prems(1) obtain n where n: "c b = Some n" "chain c (next_node n) avs"
    by (auto simp: x)
  show ?case
  proof (cases "a = b")
    case True
    then show ?thesis using n(1) by simp
  next
    case False
    then have "a \<in> fst ` set avs" using Cons.prems(2) by (auto simp: x)
    then show ?thesis using Cons.IH [OF n(2)] by simp
  qed
qed

text \<open>
  C1: assigning a list to itself returns at once and leaves the store as it is. For two
  different well-formed lists with no node in common, copy assignment ends in one of two
  ways, decided by the schedule of the coming \<open>length bvs\<close> allocations and element
  copies. Either none of them throws: the assignment returns, the destination is a
  well-formed list of fresh nodes holding the elements of the right-hand side in order,
  the right-hand side is as it was, the destination's former nodes are all released and
  no other node has appeared or gone. Or one of them throws: the exception reaches the
  caller and every node and every list object of the store is what it was before, so the
  destination is in its former state and no node is left over from the partial copy.
\<close>

theorem op_assign_strong_guarantee:
  fixes s :: "'a state"
  assumes "is_list s this avs" and "is_list s rhs bvs"
    and "this \<noteq> rhs \<longrightarrow> fst ` set avs \<inter> fst ` set bvs = {}"
  shows "op_assign this this s = Some (Ok this, s) \<and>
    (this \<noteq> rhs \<longrightarrow>
      (\<exists>s'. op_assign this rhs s =
              Some ((case first_fault (length bvs) (faults s) of
                       None \<Rightarrow> Ok this | Some e \<Rightarrow> Throw e), s') \<and>
         (\<forall>j. j \<noteq> this \<longrightarrow> obj s' j = obj s j) \<and>
         (case first_fault (length bvs) (faults s) of
            None \<Rightarrow>
              elements s' this = Some (Ok (map snd bvs)) \<and>
              GetSize s' this = Some (length bvs) \<and>
              is_list s' this
                (zip [length (heap s)..<length (heap s) + length bvs] (map snd bvs)) \<and>
              is_list s' rhs bvs \<and>
              (\<forall>a. (cell s' a \<noteq> None) =
                   (if a < length (heap s) then a \<notin> fst ` set avs \<and> cell s a \<noteq> None
                    else a < length (heap s) + length bvs)) \<and>
              (\<forall>a. a < length (heap s) \<longrightarrow> a \<notin> fst ` set avs \<longrightarrow> cell s' a = cell s a)
          | Some e \<Rightarrow>
              cell s' = cell s \<and> obj s' = obj s \<and> is_list s' this avs \<and>
              elements s' this = elements s this \<and> GetSize s' this = GetSize s this)))"
proof -
  have self: "op_assign this this s = Some (Ok this, s)" by (simp add: op_assign_def)
  have "\<exists>s'. op_assign this rhs s =
              Some ((case first_fault (length bvs) (faults s) of
                       None \<Rightarrow> Ok this | Some e \<Rightarrow> Throw e), s') \<and>
         (\<forall>j. j \<noteq> this \<longrightarrow> obj s' j = obj s j) \<and>
         (case first_fault (length bvs) (faults s) of
            None \<Rightarrow>
              elements s' this = Some (Ok (map snd bvs)) \<and>
              GetSize s' this = Some (length bvs) \<and>
              is_list s' this
                (zip [length (heap s)..<length (heap s) + length bvs] (map snd bvs)) \<and>
              is_list s' rhs bvs \<and>
              (\<forall>a. (cell s' a \<noteq> None) =
                   (if a < length (heap s) then a \<notin> fst ` set avs \<and> cell s a \<noteq> None
                    else a < length (heap s) + length bvs)) \<and>
              (\<forall>a. a < length (heap s) \<longrightarrow> a \<notin> fst ` set avs \<longrightarrow> cell s' a = cell s a)
          | Some e \<Rightarrow>
              cell s' = cell s \<and> obj s' = obj s \<and> is_list s' this avs \<and>
              elements s' this = elements s this \<and> GetSize s' this = GetSize s this)"
    if neq: "this \<noteq> rhs"
  proof -
    have dj: "fst ` set avs \<inter> fst ` set bvs = {}" using assms(3) neq by simp
    from op_assign_spec [OF assms(1,2) neq dj] obtain s' where
      sp: "op_assign this rhs s =
            Some ((case first_fault (length bvs) (faults s) of
                     None \<Rightarrow> Ok this | Some e \<Rightarrow> Throw e), s') \<and>
     (\<forall>j. j \<noteq> this \<longrightarrow> obj s' j = obj s j) \<and>
     (case first_fault (length bvs) (faults s) of
        None \<Rightarrow>
          is_list s' this (fresh_nodes (length (heap s)) (map snd bvs)) \<and>
          is_list s' rhs bvs \<and>
          length (heap s') = length (heap s) + length bvs \<and>
          (\<forall>a. a < length (heap s) \<longrightarrow>
               cell s' a = (if a \<in> fst ` set avs then None else cell s a))
      | Some e \<Rightarrow> cell s' = cell s \<and> obj s' = obj s)"
      by (elim exE) (erule that)
    show ?thesis
    proof (cases "first_fault (length bvs) (faults s)")
      case (Some e)
      then have same: "cell s' = cell s" "obj s' = obj s" using sp by simp_all
      then have l: "is_list s' this avs" using assms(1) by (simp add: is_list_iff)
      have "elements s' this = elements s this" "GetSize s' this = GetSize s this"
        using l assms(1) by (simp_all add: elements_is_list GetSize_is_list)
      then show ?thesis using sp same l by (intro exI [of _ s']) (simp add: Some)
    next
      case None
      then have l: "is_list s' this (fresh_nodes (length (heap s)) (map snd bvs))"
        and r: "is_list s' rhs bvs"
        and h: "length (heap s') = length (heap s) + length bvs"
        and c: "\<forall>a. a < length (heap s) \<longrightarrow>
               cell s' a = (if a \<in> fst ` set avs then None else cell s a)"
        using sp by simp_all
      have el: "elements s' this = Some (Ok (map snd bvs))"
        "GetSize s' this = Some (length bvs)"
        using elements_is_list [OF l] GetSize_is_list [OF l] by simp_all
      from l obtain T :: SingleLinkedList where "chain (cell s') (m_head_next T)
          (fresh_nodes (length (heap s)) (map snd bvs))"
        unfolding is_list_iff by blast
      then have live: "cell s' a \<noteq> None"
        if "length (heap s) \<le> a" "a < length (heap s) + length bvs" for a
        using that chain_live [of "cell s'" _ "fresh_nodes (length (heap s)) (map snd bvs)" a]
        by simp
      have "(cell s' a \<noteq> None) =
            (if a < length (heap s) then a \<notin> fst ` set avs \<and> cell s a \<noteq> None
             else a < length (heap s) + length bvs)" for a
      proof (cases "a < length (heap s)")
        case True
        then show ?thesis using c by simp
      next
        case False
        then show ?thesis using live [of a] h cell_Some_less [of s' a]
          by (cases "cell s' a") auto
      qed
      then show ?thesis
        using sp el l r c by (intro exI [of _ s']) (simp add: None fresh_nodes_def)
    qed
  qed
  with self show ?thesis by blast
qed

lemma is_list_ex_throwing_0: "is_list ex_lists_123_98_throwing 0 [(0, 1), (1, 2), (2, 3)]"
  by (simp add: is_list_def ex_lists_123_98_throwing_def ex_lists_123_98_def obj_def cell_def)

lemma is_list_ex_throwing_1: "is_list ex_lists_123_98_throwing (Suc 0) [(3, 9), (4, 8)]"
  by (simp add: is_list_def ex_lists_123_98_throwing_def ex_lists_123_98_def obj_def cell_def)

theorem op_assign_strong_guarantee_witness:
  "is_list ex_lists_123_98 0 [(0, 1), (1, 2), (2, 3)] \<and>
   is_list ex_lists_123_98 (Suc 0) [(3, 9), (4, 8)] \<and>
   fst ` set [(0::nat, 1::int), (1, 2), (2, 3)] \<inter> fst ` set [(3::nat, 9::int), (4, 8)] = {} \<and>
   (\<exists>s'. op_assign 0 (Suc 0) ex_lists_123_98 = Some (Ok 0, s') \<and>
      elements s' 0 = Some (Ok [9, 8]) \<and> GetSize s' 0 = Some 2 \<and>
      elements s' (Suc 0) = Some (Ok [9, 8]) \<and> cell s' 0 = None) \<and>
   (\<exists>s'. op_assign 0 (Suc 0) ex_lists_123_98_throwing = Some (Throw copy_failure, s') \<and>
      cell s' = cell ex_lists_123_98_throwing \<and> obj s' = obj ex_lists_123_98_throwing \<and>
      elements s' 0 = Some (Ok [1, 2, 3]) \<and> GetSize s' 0 = Some 3)"
proof -
  have dj: "(0::nat) \<noteq> Suc 0 \<longrightarrow>
      fst ` set [(0::nat, 1::int), (1, 2), (2, 3)] \<inter> fst ` set [(3::nat, 9::int), (4, 8)] = {}"
    by simp
  have f1: "first_fault (length [(3::nat, 9::int), (4, 8)]) (faults ex_lists_123_98) = None"
    by (simp add: ex_lists_123_98_def)
  have f2: "first_fault (length [(3::nat, 9::int), (4, 8)]) (faults ex_lists_123_98_throwing) =
      Some copy_failure"
    by (simp add: ex_lists_123_98_throwing_def)
  have h: "length (heap ex_lists_123_98) = 5" by (simp add: ex_lists_123_98_def)
  from op_assign_strong_guarantee [OF is_list_ex_swap_0 is_list_ex_swap_1 dj]
  obtain s1 where s1: "op_assign 0 (Suc 0) ex_lists_123_98 = Some (Ok 0, s1)"
    "elements s1 0 = Some (Ok (map snd [(3::nat, 9::int), (4, 8)]))"
    "GetSize s1 0 = Some (length [(3::nat, 9::int), (4, 8)])"
    "is_list s1 (Suc 0) [(3, 9), (4, 8)]"
    "\<forall>a. (cell s1 a \<noteq> None) =
         (if a < length (heap ex_lists_123_98)
          then a \<notin> fst ` set [(0::nat, 1::int), (1, 2), (2, 3)] \<and> cell ex_lists_123_98 a \<noteq> None
          else a < length (heap ex_lists_123_98) + length [(3::nat, 9::int), (4, 8)])"
    unfolding f1 by auto
  have "cell s1 0 = None" using s1(5) [THEN spec, of 0] by (simp add: h)
  then have ok: "\<exists>s'. op_assign 0 (Suc 0) ex_lists_123_98 = Some (Ok 0, s') \<and>
      elements s' 0 = Some (Ok [9, 8]) \<and> GetSize s' 0 = Some 2 \<and>
      elements s' (Suc 0) = Some (Ok [9, 8]) \<and> cell s' 0 = None"
    using s1(1,2,3) elements_is_list [OF s1(4)] by (intro exI [of _ s1]) simp
  have el: "elements ex_lists_123_98_throwing 0 = Some (Ok [1, 2, 3])"
    "GetSize ex_lists_123_98_throwing 0 = Some 3"
    using elements_is_list [OF is_list_ex_throwing_0] GetSize_is_list [OF is_list_ex_throwing_0]
    by simp_all
  from op_assign_strong_guarantee [OF is_list_ex_throwing_0 is_list_ex_throwing_1 dj]
  obtain s2 where s2:
    "op_assign 0 (Suc 0) ex_lists_123_98_throwing = Some (Throw copy_failure, s2)"
    "cell s2 = cell ex_lists_123_98_throwing" "obj s2 = obj ex_lists_123_98_throwing"
    "elements s2 0 = elements ex_lists_123_98_throwing 0"
    "GetSize s2 0 = GetSize ex_lists_123_98_throwing 0"
    unfolding f2 by auto
  have thr: "\<exists>s'. op_assign 0 (Suc 0) ex_lists_123_98_throwing = Some (Throw copy_failure, s') \<and>
      cell s' = cell ex_lists_123_98_throwing \<and> obj s' = obj ex_lists_123_98_throwing \<and>
      elements s' 0 = Some (Ok [1, 2, 3]) \<and> GetSize s' 0 = Some 3"
    using s2 el by (intro exI [of _ s2]) simp
  show ?thesis
    using is_list_ex_swap_0 is_list_ex_swap_1 ok thr by simp
qed

end
